theory Spec2Isabelle
  imports Complex_Main "HOL-Library.Sublist"
begin

section \<open>The portfolio page script (js/scripts.js)\<close>

text \<open>
  The script is a flat collection of handlers attached when the document has loaded.
  Each handler is embedded as a function on the part of the page it reads and writes.
  A thrown JavaScript exception is a value of type \<open>error\<close>; a function that can
  throw returns \<open>error + 'a\<close> with \<open>Inl\<close> for the exception.
  A class list of an element is the set of its class names.
\<close>

datatype error = TypeError | SyntaxError

type_synonym classList = "string set"

definition classList_add :: "string \<Rightarrow> classList \<Rightarrow> classList" where
  "classList_add c cl = insert c cl"

definition classList_remove :: "string \<Rightarrow> classList \<Rightarrow> classList" where
  "classList_remove c cl = cl - {c}"

definition classList_toggle :: "string \<Rightarrow> bool \<Rightarrow> classList \<Rightarrow> classList" where
  \<comment> \<open>\<open>classList.toggle(c, force)\<close>: adds \<open>c\<close> when \<open>force\<close> is true, removes it otherwise\<close>
  "classList_toggle c force cl = (if force then classList_add c cl else classList_remove c cl)"

definition classList_contains :: "string \<Rightarrow> classList \<Rightarrow> bool" where
  "classList_contains c cl \<longleftrightarrow> c \<in> cl"


subsection \<open>JavaScript numbers\<close>

text \<open>
  A JavaScript number is a double: not-a-number, an infinity or a finite value. Finite
  values are rationals here. The two operations of the script that round their result to
  a double (division and multiplication) take the rounding \<open>fl\<close> as a parameter; the
  properties below are proved for every monotone rounding that keeps zero, which
  round-to-nearest does, and the identity (exact arithmetic) is one instance.
  Negative zero and overflow to infinity are not distinguished.
\<close>

datatype number = NaN | NegInf | Fin rat | PosInf

definition signed_inf :: "bool \<Rightarrow> number" where
  "signed_inf negative = (if negative then NegInf else PosInf)"

fun num_div :: "(rat \<Rightarrow> rat) \<Rightarrow> number \<Rightarrow> number \<Rightarrow> number" where
  "num_div fl NaN _ = NaN"
| "num_div fl _ NaN = NaN"
| "num_div fl (Fin a) (Fin b) =
     (if b = 0 then (if a = 0 then NaN else signed_inf (a < 0)) else Fin (fl (a / b)))"
| "num_div fl (Fin a) _ = Fin 0"
| "num_div fl PosInf (Fin b) = signed_inf (b < 0)"
| "num_div fl NegInf (Fin b) = signed_inf (\<not> b < 0)"
| "num_div fl _ _ = NaN"

fun num_mul :: "(rat \<Rightarrow> rat) \<Rightarrow> number \<Rightarrow> number \<Rightarrow> number" where
  "num_mul fl NaN _ = NaN"
| "num_mul fl _ NaN = NaN"
| "num_mul fl (Fin a) (Fin b) = Fin (fl (a * b))"
| "num_mul fl (Fin a) PosInf = (if a = 0 then NaN else signed_inf (a < 0))"
| "num_mul fl (Fin a) NegInf = (if a = 0 then NaN else signed_inf (\<not> a < 0))"
| "num_mul fl PosInf (Fin b) = (if b = 0 then NaN else signed_inf (b < 0))"
| "num_mul fl NegInf (Fin b) = (if b = 0 then NaN else signed_inf (\<not> b < 0))"
| "num_mul fl PosInf PosInf = PosInf"
| "num_mul fl NegInf NegInf = PosInf"
| "num_mul fl _ _ = NegInf"

fun Math_round :: "number \<Rightarrow> number" where
  \<comment> \<open>\<open>Math.round\<close>: the nearest integer, a tie going up\<close>
  "Math_round (Fin x) = Fin (of_int \<lfloor>x + 1 / 2\<rfloor>)"
| "Math_round n = n"

fun num_le :: "number \<Rightarrow> number \<Rightarrow> bool" where
  \<comment> \<open>\<open>a <= b\<close>; false when either side is not a number\<close>
  "num_le NaN _ = False"
| "num_le _ NaN = False"
| "num_le NegInf _ = True"
| "num_le _ PosInf = True"
| "num_le (Fin a) (Fin b) = (a \<le> b)"
| "num_le _ _ = False"

fun Math_min :: "number \<Rightarrow> number \<Rightarrow> number" where
  "Math_min NaN _ = NaN"
| "Math_min _ NaN = NaN"
| "Math_min a b = (if num_le a b then a else b)"


subsection \<open>Section 5: the count-up animation\<close>

text \<open>
  \<open>countUp(el)\<close> reads the target (\<open>parseInt\<close> of the attribute \<open>data-count\<close>: an
  integer or \<open>NaN\<close>) and the suffix (the attribute \<open>data-suffix\<close>, which may be
  absent), and starts a repeating timer. The text of the element is kept as the pair of
  the number and the suffix that the script concatenates; \<open>Markup\<close> is the text the
  page came with.
\<close>

datatype textContent = Markup | Shown number string

record counter =
  currentStep :: nat
  el_textContent :: textContent
  timer_active :: bool

definition steps :: nat where
  "steps = 60"

definition suffix_of :: "string option \<Rightarrow> string" where
  \<comment> \<open>\<open>el.getAttribute('data-suffix') || ''\<close>\<close>
  "suffix_of a = (case a of None \<Rightarrow> [] | Some s \<Rightarrow> s)"

definition stepValue :: "(rat \<Rightarrow> rat) \<Rightarrow> number \<Rightarrow> nat \<Rightarrow> number" where
  \<comment> \<open>\<open>Math.min(Math.round((target / steps) * currentStep), target)\<close>\<close>
  "stepValue fl target k =
     Math_min (Math_round (num_mul fl (num_div fl target (Fin (of_nat steps))) (Fin (of_nat k))))
       target"

definition countUp_tick :: "(rat \<Rightarrow> rat) \<Rightarrow> number \<Rightarrow> string \<Rightarrow> counter \<Rightarrow> counter" where
  \<comment> \<open>the callback given to \<open>setInterval\<close>\<close>
  "countUp_tick fl target sfx c =
     (let c1 = c\<lparr>currentStep := currentStep c + 1\<rparr>;
          c2 = c1\<lparr>el_textContent := Shown (stepValue fl target (currentStep c1)) sfx\<rparr>
      in if steps \<le> currentStep c2
         then c2\<lparr>el_textContent := Shown target sfx, timer_active := False\<rparr>
         else c2)"

definition countUp_start :: "textContent \<Rightarrow> counter" where
  \<comment> \<open>the state when \<open>setInterval\<close> returns: no step yet, the timer running\<close>
  "countUp_start t = \<lparr>currentStep = 0, el_textContent = t, timer_active = True\<rparr>"

definition interval_fire :: "(counter \<Rightarrow> counter) \<Rightarrow> counter \<Rightarrow> counter" where
  \<comment> \<open>one period of the timer: the callback runs unless the timer has been cleared\<close>
  "interval_fire cb c = (if timer_active c then cb c else c)"

function countUp_loop :: "(rat \<Rightarrow> rat) \<Rightarrow> number \<Rightarrow> string \<Rightarrow> counter \<Rightarrow> counter list" where
  "countUp_loop fl target sfx c =
     (if timer_active c
      then (let c' = countUp_tick fl target sfx c in c' # countUp_loop fl target sfx c')
      else [])"
  by pat_completeness auto
termination
  by (relation "measure (\<lambda>(fl, target, sfx, c).
         if timer_active c then Suc (steps - currentStep c) else 0)")
     (auto simp: countUp_tick_def Let_def steps_def)

definition countUp :: "(rat \<Rightarrow> rat) \<Rightarrow> number \<Rightarrow> string option \<Rightarrow> textContent \<Rightarrow> counter list" where
  \<comment> \<open>the states of the element after each run of the timer's callback, until it is cleared\<close>
  "countUp fl target suffix_attr t =
     countUp_loop fl target (suffix_of suffix_attr) (countUp_start t)"

definition shown_value :: "counter \<Rightarrow> number" where
  \<comment> \<open>the number in the text of the element (\<open>NaN\<close> while the markup's text stands)\<close>
  "shown_value c = (case el_textContent c of Markup \<Rightarrow> NaN | Shown v _ \<Rightarrow> v)"

definition displayed_values ::
  "(rat \<Rightarrow> rat) \<Rightarrow> number \<Rightarrow> string option \<Rightarrow> textContent \<Rightarrow> number list" where
  "displayed_values fl target suffix_attr t = map shown_value (countUp fl target suffix_attr t)"

definition state_at :: "(rat \<Rightarrow> rat) \<Rightarrow> number \<Rightarrow> string \<Rightarrow> nat \<Rightarrow> counter" where
  \<comment> \<open>closed form of the counter after its \<open>k\<close>-th step, used in the proofs\<close>
  "state_at fl target sfx k =
     \<lparr>currentStep = k,
      el_textContent = Shown (if steps \<le> k then target else stepValue fl target k) sfx,
      timer_active = (k < steps)\<rparr>"

definition shownAt :: "(rat \<Rightarrow> rat) \<Rightarrow> number \<Rightarrow> nat \<Rightarrow> number" where
  "shownAt fl target k = (if steps \<le> k then target else stepValue fl target k)"


subsection \<open>Section 4: the typing effect\<close>

text \<open>
  A JavaScript string is a list of code units. \<open>substring\<close> clamps both indices to the
  length of the string and swaps them when they are out of order.
\<close>

definition substring :: "string \<Rightarrow> int \<Rightarrow> int \<Rightarrow> string" where
  "substring s start stop =
     (let len = int (length s);
          a = min (max start 0) len;
          b = min (max stop 0) len;
          lo = min a b;
          hi = max a b
      in take (nat (hi - lo)) (drop (nat lo) s))"

definition js_rem :: "nat \<Rightarrow> nat \<Rightarrow> nat option" where
  \<comment> \<open>\<open>a % b\<close> on non-negative integers; \<open>None\<close> is \<open>NaN\<close>\<close>
  "js_rem a b = (if b = 0 then None else Some (a mod b))"

definition array_get :: "'a list \<Rightarrow> nat option \<Rightarrow> 'a option" where
  \<comment> \<open>\<open>xs[i]\<close>; \<open>None\<close> is \<open>undefined\<close>\<close>
  "array_get xs i =
     (case i of None \<Rightarrow> None | Some n \<Rightarrow> if n < length xs then Some (xs ! n) else None)"

record typewriter =
  element_textContent :: string
  words :: "string list"
  waitTime :: nat
  wordIndex :: nat
  tw_text :: string
  isDeleting :: bool

definition type_step :: "typewriter \<Rightarrow> error + typewriter \<times> nat" where
  \<comment> \<open>the method \<open>type()\<close>: the new state and the delay given to \<open>setTimeout\<close>\<close>
  "type_step tw =
     (case array_get (words tw) (js_rem (wordIndex tw) (length (words tw))) of
        None \<Rightarrow> Inl TypeError
      | Some currentWord \<Rightarrow>
          (let txt = (if isDeleting tw
                      then substring currentWord 0 (int (length (tw_text tw)) - 1)
                      else substring currentWord 0 (int (length (tw_text tw)) + 1));
               tw1 = tw\<lparr>tw_text := txt, element_textContent := txt\<rparr>;
               delay = (if isDeleting tw1 then 50 else 100)
           in if \<not> isDeleting tw1 \<and> tw_text tw1 = currentWord
              then Inr (tw1\<lparr>isDeleting := True\<rparr>, waitTime tw1)
              else if isDeleting tw1 \<and> tw_text tw1 = []
              then Inr (tw1\<lparr>isDeleting := False, wordIndex := wordIndex tw1 + 1\<rparr>, 400)
              else Inr (tw1, delay)))"

fun type_loop :: "nat \<Rightarrow> typewriter \<Rightarrow> error + typewriter \<times> (string \<times> nat) list" where
  \<comment> \<open>\<open>n\<close> calls of \<open>type()\<close>, each scheduled by the one before; the trace holds the text
      written to the page and the delay of every call\<close>
  "type_loop 0 tw = Inr (tw, [])"
| "type_loop (Suc n) tw =
     (case type_step tw of
        Inl e \<Rightarrow> Inl e
      | Inr (tw1, delay) \<Rightarrow>
          (case type_loop n tw1 of
             Inl e \<Rightarrow> Inl e
           | Inr (tw2, trace) \<Rightarrow> Inr (tw2, (element_textContent tw1, delay) # trace)))"

definition TypeWriter :: "string \<Rightarrow> string list \<Rightarrow> nat \<Rightarrow> typewriter" where
  \<comment> \<open>the fields set by the constructor, before it calls \<open>type()\<close>\<close>
  "TypeWriter el ws wt =
     \<lparr>element_textContent = el, words = ws, waitTime = wt, wordIndex = 0, tw_text = [],
      isDeleting = False\<rparr>"

definition currentWord_of :: "typewriter \<Rightarrow> string" where
  "currentWord_of tw = words tw ! (wordIndex tw mod length (words tw))"

definition typing_trace :: "string \<Rightarrow> nat \<Rightarrow> (string \<times> nat) list" where
  \<comment> \<open>typing a word: one more character per call, 100ms after each, then the whole word
      with the pause \<open>wt\<close> (an empty word is whole at once)\<close>
  "typing_trace w wt = map (\<lambda>k. (take k w, 100)) [1 ..< length w] @ [(w, wt)]"

definition deleting_trace :: "string \<Rightarrow> (string \<times> nat) list" where
  \<comment> \<open>deleting it: one character fewer per call, 50ms after each, then the empty text
      with 400ms before the next word\<close>
  "deleting_trace w = map (\<lambda>k. (take k w, 50)) (rev [1 ..< length w]) @ [([], 400)]"

definition cycle_trace :: "string list \<Rightarrow> nat \<Rightarrow> nat \<Rightarrow> (string \<times> nat) list" where
  \<comment> \<open>the cycle of the word with index \<open>i\<close>, the list taken cyclically\<close>
  "cycle_trace ws wt i =
     typing_trace (ws ! (i mod length ws)) wt @ deleting_trace (ws ! (i mod length ws))"

definition cycles_trace :: "string list \<Rightarrow> nat \<Rightarrow> nat \<Rightarrow> (string \<times> nat) list" where
  \<comment> \<open>the cycles of the first \<open>m\<close> words\<close>
  "cycles_trace ws wt m = concat (map (cycle_trace ws wt) [0 ..< m])"

definition tw_state ::
  "string \<Rightarrow> string list \<Rightarrow> nat \<Rightarrow> nat \<Rightarrow> nat \<Rightarrow> bool \<Rightarrow> typewriter" where
  \<comment> \<open>the state with \<open>k\<close> characters of the word with index \<open>i\<close> typed, used in the proofs\<close>
  "tw_state el ws wt i k del =
     \<lparr>element_textContent = el, words = ws, waitTime = wt, wordIndex = i,
      tw_text = take k (ws ! (i mod length ws)), isDeleting = del\<rparr>"


subsection \<open>Section 1: the navbar on scroll\<close>

text \<open>
  \<open>document.querySelector('.navbar')\<close> is the element or \<open>null\<close>: the class list of the
  navbar or \<open>None\<close>. The scroll offset is a finite number. \<open>addNavScrollClass\<close> reads
  \<open>navbar.classList\<close> with no check, which throws on \<open>null\<close>.
\<close>

definition addNavScrollClass :: "rat \<Rightarrow> classList option \<Rightarrow> error + classList" where
  "addNavScrollClass scrollY navbar =
     (case navbar of
        None \<Rightarrow> Inl TypeError
      | Some cl \<Rightarrow>
          if 50 < scrollY then Inr (classList_add ''scrolled'' cl)
          else Inr (classList_remove ''scrolled'' cl))"


subsection \<open>Section 3: scroll reveal\<close>

text \<open>
  Elements are named by their position in the document. The state of the reveal section is
  the class list of every element and the set of targets of \<open>revealObserver\<close>. The browser
  calls the observer's callback with a list of entries; whether an entry is intersecting
  (10% visible within the root margin) is decided by the browser and is an input here.
\<close>

record entry =
  entry_target :: nat
  isIntersecting :: bool

record reveal =
  classes :: "nat \<Rightarrow> classList"
  observed :: "nat set"

definition reveal_entry :: "entry \<Rightarrow> reveal \<Rightarrow> reveal" where
  \<comment> \<open>the body of \<open>entries.forEach\<close>\<close>
  "reveal_entry e s =
     (if \<not> isIntersecting e then s
      else s\<lparr>classes := (classes s)(entry_target e :=
                        classList_add ''revealed'' (classes s (entry_target e))),
              observed := observed s - {entry_target e}\<rparr>)"

definition revealCallback :: "entry list \<Rightarrow> reveal \<Rightarrow> reveal" where
  "revealCallback entries s = fold reveal_entry entries s"

definition reveal_init :: "nat list \<Rightarrow> (nat \<Rightarrow> classList) \<Rightarrow> reveal" where
  \<comment> \<open>\<open>revealElements.forEach(el => revealObserver.observe(el))\<close>\<close>
  "reveal_init revealElements cls = \<lparr>classes = cls, observed = set revealElements\<rparr>"

fun reveal_run :: "entry list list \<Rightarrow> reveal \<Rightarrow> reveal list" where
  \<comment> \<open>the states after each call of the callback, for a sequence of calls\<close>
  "reveal_run [] s = []"
| "reveal_run (es # rest) s = revealCallback es s # reveal_run rest (revealCallback es s)"

definition revealed :: "nat \<Rightarrow> reveal \<Rightarrow> bool" where
  "revealed el s \<longleftrightarrow> classList_contains ''revealed'' (classes s el)"

fun transitions :: "nat \<Rightarrow> reveal \<Rightarrow> reveal list \<Rightarrow> nat" where
  \<comment> \<open>how often the element goes from not revealed to revealed along a run\<close>
  "transitions el s [] = 0"
| "transitions el s (s1 # rest) =
     (if \<not> revealed el s \<and> revealed el s1 then 1 else 0) + transitions el s1 rest"


subsection \<open>Section 7: the project filter\<close>

text \<open>
  A filter button has its class list and its attribute \<open>data-filter\<close> (\<open>getAttribute\<close>
  gives \<open>null\<close> when it is absent). The cards are selected with their attribute
  \<open>data-category\<close>, so every card has one. The click handler of the button at position
  \<open>i\<close> exists for the buttons of the page only.
\<close>

record filterBtn =
  btn_classList :: classList
  data_filter :: "string option"

record projectCard =
  card_classList :: classList
  data_category :: string

record filterSection =
  filterButtons :: "filterBtn list"
  projectCards :: "projectCard list"

definition filter_card :: "string option \<Rightarrow> projectCard \<Rightarrow> projectCard" where
  \<comment> \<open>the body of \<open>projectCards.forEach\<close>\<close>
  "filter_card selectedFilter pcard =
     (let cardCategory = data_category pcard;
          shouldShow = (selectedFilter = Some ''all'' \<or> Some cardCategory = selectedFilter)
      in pcard\<lparr>card_classList :=
                 classList_toggle ''hidden'' (\<not> shouldShow) (card_classList pcard)\<rparr>)"

definition filter_click :: "nat \<Rightarrow> filterSection \<Rightarrow> filterSection" where
  "filter_click i fs =
     (if length (filterButtons fs) \<le> i then fs
      else
        (let bs1 = map (\<lambda>b. b\<lparr>btn_classList := classList_remove ''active'' (btn_classList b)\<rparr>)
                       (filterButtons fs);
             bs2 = bs1[i := (bs1 ! i)\<lparr>btn_classList := classList_add ''active'' (btn_classList (bs1 ! i))\<rparr>];
             selectedFilter = data_filter (bs2 ! i)
         in \<lparr>filterButtons = bs2,
             projectCards = map (filter_card selectedFilter) (projectCards fs)\<rparr>))"

definition btn_active :: "filterBtn \<Rightarrow> bool" where
  "btn_active b \<longleftrightarrow> classList_contains ''active'' (btn_classList b)"

definition card_visible :: "projectCard \<Rightarrow> bool" where
  \<comment> \<open>the class \<open>hidden\<close> is \<open>display: none\<close>\<close>
  "card_visible c \<longleftrightarrow> \<not> classList_contains ''hidden'' (card_classList c)"


definition demo_filterSection :: filterSection where
  \<comment> \<open>a page with the buttons \<open>all\<close> (active) and \<open>web\<close> and two cards, the first hidden\<close>
  "demo_filterSection =
     \<lparr>filterButtons =
        [\<lparr>btn_classList = {''filter-btn'', ''active''}, data_filter = Some ''all''\<rparr>,
         \<lparr>btn_classList = {''filter-btn''}, data_filter = Some ''web''\<rparr>],
      projectCards =
        [\<lparr>card_classList = {''project-card'', ''hidden''}, data_category = ''web''\<rparr>,
         \<lparr>card_classList = {''project-card''}, data_category = ''mobile''\<rparr>]\<rparr>"

subsection \<open>Section 8: the contact form\<close>

text \<open>
  The submit control is \<open>contactForm.querySelector('button[type="submit"]')\<close>, the element
  or \<open>null\<close>. A field has the value the markup gave it and its current value;
  \<open>contactForm.reset()\<close> puts every field back to the former. The handler returns the
  form, whether the default action of the event is prevented, and the timeout it has set:
  the delay and the callback, which keeps the label it read.
\<close>

record button =
  innerHTML :: string
  style_background :: string
  disabled :: bool

record field =
  defaultValue :: string
  currentValue :: string

record contactForm =
  submitBtn :: "button option"
  form_fields :: "field list"

record submitted =
  form :: contactForm
  defaultPrevented :: bool
  timeout_delay :: nat
  timeout_callback :: "contactForm \<Rightarrow> contactForm"

definition sent_label :: string where
  \<comment> \<open>the label \<open>Sent!\<close> followed by a check mark (U+2713, here its three UTF-8 bytes)\<close>
  "sent_label = ''Sent! '' @ [char_of (226::nat), char_of (156::nat), char_of (147::nat)]"

definition form_reset :: "contactForm \<Rightarrow> contactForm" where
  "form_reset f =
     f\<lparr>form_fields := map (\<lambda>x. x\<lparr>currentValue := defaultValue x\<rparr>) (form_fields f)\<rparr>"

definition restore :: "string \<Rightarrow> contactForm \<Rightarrow> contactForm" where
  \<comment> \<open>the callback given to \<open>setTimeout\<close>; \<open>submitBtn\<close> is not \<open>null\<close> when it has been set\<close>
  "restore originalLabel f =
     form_reset (f\<lparr>submitBtn :=
       map_option (\<lambda>b. b\<lparr>innerHTML := originalLabel, style_background := [], disabled := False\<rparr>)
         (submitBtn f)\<rparr>)"

definition submit_handler :: "contactForm \<Rightarrow> error + submitted" where
  "submit_handler f =
     (case submitBtn f of
        None \<Rightarrow> Inl TypeError
      | Some b \<Rightarrow>
          (let originalLabel = innerHTML b;
               b1 = b\<lparr>innerHTML := sent_label,
                      style_background := ''linear-gradient(135deg, #10b981, #06b6d4)'',
                      disabled := True\<rparr>
           in Inr \<lparr>form = f\<lparr>submitBtn := Some b1\<rparr>, defaultPrevented = True,
                    timeout_delay = 2500, timeout_callback = restore originalLabel\<rparr>))"

definition form_after :: "nat \<Rightarrow> submitted \<Rightarrow> contactForm" where
  \<comment> \<open>the form \<open>t\<close> milliseconds after the handler has run, nothing else happening to it: the
      timeout's callback runs once its delay has passed\<close>
  "form_after t s = (if t < timeout_delay s then form s else timeout_callback s (form s))"


definition form_after_submit :: "nat \<Rightarrow> contactForm \<Rightarrow> error + contactForm" where
  \<comment> \<open>the form \<open>t\<close> milliseconds after a submission\<close>
  "form_after_submit t f =
     (case submit_handler f of Inl e \<Rightarrow> Inl e | Inr s \<Rightarrow> Inr (form_after t s))"

definition styled_button :: button where
  \<comment> \<open>a submit control that carries an inline background of its own\<close>
  "styled_button = \<lparr>innerHTML = ''Send'', style_background = ''red'', disabled = False\<rparr>"

definition styled_contactForm :: contactForm where
  \<comment> \<open>a form whose only field has the value \<open>Bob\<close> in the markup; the visitor typed \<open>Alice\<close>\<close>
  "styled_contactForm =
     \<lparr>submitBtn = Some styled_button,
      form_fields = [\<lparr>defaultValue = ''Bob'', currentValue = ''Alice''\<rparr>]\<rparr>"

subsection \<open>The handler of \<open>DOMContentLoaded\<close>\<close>

text \<open>
  What the setup reads of the page: which elements exist. The attribute \<open>data-words\<close> of
  the typing target is taken as \<open>JSON.parse\<close> leaves it, a syntax error or an array of
  strings (the documented type of the parameter \<open>words\<close>). The result is the list of the
  features whose handlers have been attached, in the order of the script, and the
  exception that ended the setup, if one did: nothing after it is attached.
\<close>

datatype parsed = ParseError | StringArray "string list"

datatype feature =
  NavbarScroll | MobileDrawer | ActiveSection | ScrollReveal | TypingEffect | StatsCounter
  | BackToTop | ProjectFilter | ContactForm

record page =
  scrollY :: rat
  navbar :: "classList option"
  hamburger :: bool
  navMenu :: bool
  typedTarget :: "(string \<times> parsed) option"
  statElements :: nat
  backToTopBtn :: bool
  filterButtonCount :: nat
  contactFormPresent :: bool

definition JSON_parse :: "parsed \<Rightarrow> error + string list" where
  "JSON_parse a = (case a of ParseError \<Rightarrow> Inl SyntaxError | StringArray ws \<Rightarrow> Inr ws)"

definition setup_typing :: "(string \<times> parsed) option \<Rightarrow> error + feature list" where
  \<comment> \<open>\<open>if (typedTarget) { ... new TypeWriter(typedTarget, words, 2000); }\<close>: the
      constructor makes the first call of \<open>type()\<close>\<close>
  "setup_typing t =
     (case t of
        None \<Rightarrow> Inr []
      | Some (el, a) \<Rightarrow>
          (case JSON_parse a of
             Inl e \<Rightarrow> Inl e
           | Inr ws \<Rightarrow>
               (case type_step (TypeWriter el ws 2000) of
                  Inl e \<Rightarrow> Inl e
                | Inr _ \<Rightarrow> Inr [TypingEffect])))"

definition DOMContentLoaded :: "page \<Rightarrow> feature list \<times> error option" where
  "DOMContentLoaded p =
     (case addNavScrollClass (scrollY p) (navbar p) of
        Inl e \<Rightarrow> ([], Some e)
      | Inr _ \<Rightarrow>
          (let attached = [NavbarScroll]
                 @ (if hamburger p \<and> navMenu p then [MobileDrawer] else [])
                 @ [ActiveSection, ScrollReveal]
           in case setup_typing (typedTarget p) of
                Inl e \<Rightarrow> (attached, Some e)
              | Inr typing \<Rightarrow>
                  (attached
                   @ typing
                   @ (if 0 < statElements p then [StatsCounter] else [])
                   @ (if backToTopBtn p then [BackToTop] else [])
                   @ (if 0 < filterButtonCount p then [ProjectFilter] else [])
                   @ (if contactFormPresent p then [ContactForm] else []),
                   None)))"

definition page_without_navbar :: page where
  \<comment> \<open>a page with every element the script looks for, except the navbar\<close>
  "page_without_navbar =
     \<lparr>scrollY = 0, navbar = None, hamburger = True, navMenu = True,
      typedTarget = Some (''Developer'', StringArray [''Developer'', ''Designer'']),
      statElements = 3, backToTopBtn = True, filterButtonCount = 4,
      contactFormPresent = True\<rparr>"


section \<open>Properties\<close>

subsection \<open>The count-up animation\<close>

lemma steps_pos: "0 < steps"
  by (simp add: steps_def)

lemma countUp_tick_state_at:
  "currentStep c = k \<Longrightarrow> timer_active c \<Longrightarrow>
   countUp_tick fl target sfx c = state_at fl target sfx (Suc k)"
  by (cases c) (auto simp: countUp_tick_def state_at_def Let_def)

lemma countUp_loop_closed:
  "timer_active c \<Longrightarrow> currentStep c = k \<Longrightarrow> k < steps \<Longrightarrow>
   countUp_loop fl target sfx c = map (state_at fl target sfx) [Suc k ..< Suc steps]"
proof (induction "steps - k" arbitrary: c k)
  case 0
  then show ?case by simp
next
  case (Suc d)
  let ?c' = "countUp_tick fl target sfx c"
  have c': "?c' = state_at fl target sfx (Suc k)"
    using Suc.prems by (simp add: countUp_tick_state_at)
  have unfold: "countUp_loop fl target sfx c = ?c' # countUp_loop fl target sfx ?c'"
    using Suc.prems(1) by (subst countUp_loop.simps) (simp add: Let_def)
  show ?case
  proof (cases "Suc k < steps")
    case True
    have "countUp_loop fl target sfx ?c' = map (state_at fl target sfx) [Suc (Suc k) ..< Suc steps]"
      using Suc.hyps True by (intro Suc.hyps(1)) (auto simp: c' state_at_def)
    with unfold c' True show ?thesis
      by (simp add: upt_conv_Cons)
  next
    case False
    with Suc.prems have k: "Suc k = steps" by simp
    have "countUp_loop fl target sfx ?c' = []"
      by (subst countUp_loop.simps) (simp add: c' state_at_def k)
    with unfold c' k show ?thesis
      by (simp add: upt_conv_Cons)
  qed
qed

lemma countUp_closed:
  "countUp fl target a t = map (state_at fl target (suffix_of a)) [1 ..< Suc steps]"
  unfolding countUp_def
  by (subst countUp_loop_closed[where k=0]) (simp_all add: countUp_start_def steps_pos)

lemma countUp_length: "length (countUp fl target a t) = steps"
  by (simp add: countUp_closed)

lemma countUp_nth:
  "i < steps \<Longrightarrow> countUp fl target a t ! i = state_at fl target (suffix_of a) (Suc i)"
  unfolding countUp_closed by (simp del: upt_Suc)

lemma countUp_last:
  "last (countUp fl target a t) = state_at fl target (suffix_of a) steps"
proof -
  have "[1 ..< Suc steps] = [1 ..< steps] @ [steps]"
    using steps_pos by (intro upt_Suc_append) simp
  then show ?thesis
    unfolding countUp_closed by (simp only: map_append list.map last_snoc)
qed

lemma fire_closed:
  "i \<le> steps \<Longrightarrow>
   (interval_fire (countUp_tick fl target sfx) ^^ i) (countUp_start t) =
     (if i = 0 then countUp_start t else state_at fl target sfx i)"
proof (induction i)
  case 0
  show ?case by simp
next
  case (Suc i)
  show ?case
  proof (cases "i = 0")
    case True
    then show ?thesis
      by (simp add: interval_fire_def countUp_start_def countUp_tick_state_at)
  next
    case False
    have "timer_active (state_at fl target sfx i)" and "currentStep (state_at fl target sfx i) = i"
      using Suc.prems by (simp_all add: state_at_def)
    then show ?thesis
      using Suc False by (simp add: interval_fire_def countUp_tick_state_at)
  qed
qed

lemma fire_cleared:
  "\<not> timer_active c \<Longrightarrow> (interval_fire cb ^^ m) c = c"
  by (induction m) (simp_all add: interval_fire_def)

lemma stepValue_Fin:
  "stepValue fl (Fin x) k =
     Fin (min (of_int \<lfloor>fl (fl (x / of_nat steps) * of_nat k) + 1 / 2\<rfloor>) x)"
  by (simp add: stepValue_def steps_def min_def)

lemma stepValue_le_target: "num_le (stepValue fl (Fin x) k) (Fin x)"
  by (simp add: stepValue_Fin)

lemma stepValue_mono:
  assumes "mono fl" and "fl 0 = 0" and "0 \<le> x" and "i \<le> j"
  shows "num_le (stepValue fl (Fin x) i) (stepValue fl (Fin x) j)"
proof -
  let ?q = "fl (x / of_nat steps)"
  have "0 \<le> x / of_nat steps"
    using assms(3) by simp
  with assms(1) have "fl 0 \<le> ?q"
    by (rule monoD)
  then have q: "0 \<le> ?q" using assms(2) by simp
  have "?q * of_nat i \<le> ?q * of_nat j"
    using q assms(4) by (simp add: mult_left_mono)
  then have "fl (?q * of_nat i) \<le> fl (?q * of_nat j)"
    by (rule monoD[OF assms(1)])
  then have "\<lfloor>fl (?q * of_nat i) + 1 / 2\<rfloor> \<le> \<lfloor>fl (?q * of_nat j) + 1 / 2\<rfloor>"
    by (simp add: floor_mono)
  then have "(of_int \<lfloor>fl (?q * of_nat i) + 1 / 2\<rfloor> :: rat) \<le> of_int \<lfloor>fl (?q * of_nat j) + 1 / 2\<rfloor>"
    by simp
  then show ?thesis
    by (simp add: stepValue_Fin min_le_iff_disj)
qed

lemma shownAt_le_target: "num_le (shownAt fl (Fin x) k) (Fin x)"
  by (simp add: shownAt_def stepValue_le_target)

lemma shownAt_mono:
  assumes "mono fl" and "fl 0 = 0" and "0 \<le> x" and "i \<le> j"
  shows "num_le (shownAt fl (Fin x) i) (shownAt fl (Fin x) j)"
  using assms by (auto simp: shownAt_def stepValue_mono stepValue_le_target)

lemma displayed_values_length: "length (displayed_values fl target a t) = steps"
  by (simp add: displayed_values_def countUp_length)

lemma displayed_values_nth:
  "i < steps \<Longrightarrow> displayed_values fl target a t ! i = shownAt fl target (Suc i)"
  by (simp add: displayed_values_def countUp_length countUp_nth shown_value_def state_at_def
        shownAt_def)

lemma displayed_values_last: "last (displayed_values fl target a t) = target"
proof -
  have "countUp fl target a t \<noteq> []"
    using countUp_length[of fl target a t] steps_pos by auto
  then show ?thesis
    by (simp add: displayed_values_def last_map countUp_last shown_value_def state_at_def)
qed

text \<open>
  C1. For every non-negative integer target (0 included), the values shown by the
  count-up animation over its 60 steps never decrease, none exceeds the target, and the
  value shown when the animation completes is the target itself. The rounding of the
  double arithmetic is any monotone function that keeps zero.
\<close>

theorem countUp_nondecreasing_bounded_exact:
  assumes "mono fl" and "fl 0 = 0"
  shows "length (displayed_values fl (Fin (of_nat n)) a t) = 60
       \<and> (\<forall>i j. i \<le> j \<and> j < 60 \<longrightarrow>
             num_le (displayed_values fl (Fin (of_nat n)) a t ! i)
                    (displayed_values fl (Fin (of_nat n)) a t ! j))
       \<and> (\<forall>i < 60. num_le (displayed_values fl (Fin (of_nat n)) a t ! i) (Fin (of_nat n)))
       \<and> last (displayed_values fl (Fin (of_nat n)) a t) = Fin (of_nat n)
       \<and> el_textContent (last (countUp fl (Fin (of_nat n)) a t))
           = Shown (Fin (of_nat n)) (suffix_of a)"
proof -
  have s: "steps = 60" by (simp add: steps_def)
  let ?vs = "displayed_values fl (Fin (of_nat n)) a t"
  have len: "length ?vs = 60"
    using displayed_values_length[of fl "Fin (of_nat n)" a t] s by simp
  have mono: "\<forall>i j. i \<le> j \<and> j < 60 \<longrightarrow> num_le (?vs ! i) (?vs ! j)"
  proof (intro allI impI)
    fix i j :: nat assume ij: "i \<le> j \<and> j < 60"
    then have "i < steps" "j < steps" using s by auto
    then show "num_le (?vs ! i) (?vs ! j)"
      using assms ij by (simp add: displayed_values_nth shownAt_mono)
  qed
  have bound: "\<forall>i < 60. num_le (?vs ! i) (Fin (of_nat n))"
  proof (intro allI impI)
    fix i :: nat assume "i < 60"
    then have "i < steps" using s by simp
    then show "num_le (?vs ! i) (Fin (of_nat n))"
      by (simp add: displayed_values_nth shownAt_le_target)
  qed
  have final: "el_textContent (last (countUp fl (Fin (of_nat n)) a t))
                 = Shown (Fin (of_nat n)) (suffix_of a)"
    by (simp add: countUp_last state_at_def)
  show ?thesis
    using len mono bound final displayed_values_last[of fl "Fin (of_nat n)" a t] by blast
qed

theorem countUp_nondecreasing_bounded_exact_witness:
  "mono (\<lambda>x::rat. x)
   \<and> length (displayed_values (\<lambda>x. x) (Fin (of_nat 7)) (Some ''+'') Markup) = 60
   \<and> num_le (displayed_values (\<lambda>x. x) (Fin (of_nat 7)) (Some ''+'') Markup ! 10)
             (displayed_values (\<lambda>x. x) (Fin (of_nat 7)) (Some ''+'') Markup ! 40)
   \<and> num_le (displayed_values (\<lambda>x. x) (Fin (of_nat 7)) (Some ''+'') Markup ! 40) (Fin (of_nat 7))
   \<and> last (displayed_values (\<lambda>x. x) (Fin (of_nat 7)) (Some ''+'') Markup) = Fin (of_nat 7)"
proof -
  have m: "mono (\<lambda>x::rat. x)" by (simp add: mono_def)
  have z: "(\<lambda>x::rat. x) 0 = 0" by simp
  show ?thesis
    using m countUp_nondecreasing_bounded_exact[OF m z, of 7 "Some ''+''" Markup] by simp
qed

text \<open>
  C10. For every target and suffix the count-up animation terminates: the callback of its
  timer runs exactly 60 times, the \<open>i\<close>-th run making step \<open>i\<close>, the timer is active
  until the 60th run and cleared by it, and a cleared timer changes nothing any more, so
  the text of the element is not written again.
\<close>

theorem countUp_fires_60_times_then_stops:
  "length (countUp fl target a t) = 60
   \<and> (\<forall>i < 60. countUp fl target a t ! i
          = (interval_fire (countUp_tick fl target (suffix_of a)) ^^ Suc i) (countUp_start t))
   \<and> (\<forall>i < 60. currentStep (countUp fl target a t ! i) = Suc i)
   \<and> (\<forall>i < 59. timer_active (countUp fl target a t ! i))
   \<and> \<not> timer_active (last (countUp fl target a t))
   \<and> (\<forall>m. (interval_fire (countUp_tick fl target (suffix_of a)) ^^ m) (last (countUp fl target a t))
          = last (countUp fl target a t))"
proof -
  have s: "steps = 60" by (simp add: steps_def)
  let ?cs = "countUp fl target a t"
  have len: "length ?cs = 60"
    using countUp_length[of fl target a t] s by simp
  have fire: "\<forall>i < 60. ?cs ! i
          = (interval_fire (countUp_tick fl target (suffix_of a)) ^^ Suc i) (countUp_start t)"
  proof (intro allI impI)
    fix i :: nat assume "i < 60"
    then have i: "i < steps" "Suc i \<le> steps" using s by simp_all
    show "?cs ! i = (interval_fire (countUp_tick fl target (suffix_of a)) ^^ Suc i) (countUp_start t)"
      using fire_closed[OF i(2), of fl target "suffix_of a" t] countUp_nth[OF i(1), of fl target a t]
      by simp
  qed
  have step: "\<forall>i < 60. currentStep (?cs ! i) = Suc i"
  proof (intro allI impI)
    fix i :: nat assume "i < 60"
    then have "i < steps" using s by simp
    then show "currentStep (?cs ! i) = Suc i"
      by (simp add: countUp_nth state_at_def)
  qed
  have active: "\<forall>i < 59. timer_active (?cs ! i)"
  proof (intro allI impI)
    fix i :: nat assume "i < 59"
    then have "i < steps" "Suc i < steps" using s by simp_all
    then show "timer_active (?cs ! i)"
      by (simp add: countUp_nth state_at_def)
  qed
  have cleared: "\<not> timer_active (last ?cs)"
    by (simp add: countUp_last state_at_def)
  have stop: "\<forall>m. (interval_fire (countUp_tick fl target (suffix_of a)) ^^ m) (last ?cs) = last ?cs"
    using cleared by (simp add: fire_cleared)
  show ?thesis
    using len fire step active cleared stop by blast
qed

theorem countUp_fires_60_times_then_stops_witness:
  "length (countUp (\<lambda>x. x) NaN None Markup) = 60
   \<and> currentStep (countUp (\<lambda>x. x) NaN None Markup ! 59) = 60
   \<and> timer_active (countUp (\<lambda>x. x) NaN None Markup ! 58)
   \<and> \<not> timer_active (last (countUp (\<lambda>x. x) NaN None Markup))"
proof -
  from countUp_fires_60_times_then_stops[of "\<lambda>x. x" NaN None Markup]
  have len: "length (countUp (\<lambda>x. x) NaN None Markup) = 60"
    and step: "\<forall>i < 60. currentStep (countUp (\<lambda>x. x) NaN None Markup ! i) = Suc i"
    and active: "\<forall>i < 59. timer_active (countUp (\<lambda>x. x) NaN None Markup ! i)"
    and cleared: "\<not> timer_active (last (countUp (\<lambda>x. x) NaN None Markup))"
    by blast+
  from step have "currentStep (countUp (\<lambda>x. x) NaN None Markup ! 59) = 60" by simp
  moreover from active have "timer_active (countUp (\<lambda>x. x) NaN None Markup ! 58)" by simp
  ultimately show ?thesis using len cleared by blast
qed


subsection \<open>The typing effect\<close>

lemma substring_0: "substring s 0 n = take (nat n) s"
  by (auto simp: substring_def Let_def min_def max_def)

lemma currentWord_get:
  "words tw \<noteq> [] \<Longrightarrow>
   array_get (words tw) (js_rem (wordIndex tw) (length (words tw))) = Some (currentWord_of tw)"
  by (simp add: array_get_def js_rem_def currentWord_of_def)

lemma currentWord_none:
  "words tw = [] \<Longrightarrow> array_get (words tw) (js_rem (wordIndex tw) (length (words tw))) = None"
  by (simp add: array_get_def js_rem_def)

lemma type_step_empty: "words tw = [] \<Longrightarrow> type_step tw = Inl TypeError"
  by (simp add: type_step_def array_get_def js_rem_def)

lemma type_step_nonempty:
  assumes "words tw \<noteq> []"
  shows "\<exists>tw1 d. type_step tw = Inr (tw1, d) \<and> words tw1 = words tw \<and> waitTime tw1 = waitTime tw
           \<and> element_textContent tw1 = tw_text tw1
           \<and> prefix (element_textContent tw1) (currentWord_of tw)
           \<and> prefix (tw_text tw1) (currentWord_of tw1)
           \<and> (wordIndex tw1 = wordIndex tw \<or> wordIndex tw1 = Suc (wordIndex tw))"
  using assms
  by (auto simp: type_step_def currentWord_get Let_def substring_0 take_is_prefix)
     (auto simp: currentWord_of_def take_is_prefix)


lemma type_loop_append:
  "type_loop a tw = Inr (tw1, tr1) \<Longrightarrow> type_loop b tw1 = Inr (tw2, tr2) \<Longrightarrow>
   type_loop (a + b) tw = Inr (tw2, tr1 @ tr2)"
  by (induction a arbitrary: tw tr1) (auto split: sum.splits prod.splits)

lemma nat_int_succ: "nat (int k + 1) = Suc k"
  by simp

lemma nat_int_pred: "nat (int k - 1) = k - 1"
  by simp

lemma step_typing_more:
  assumes "ws \<noteq> []" and "Suc k < length (ws ! (i mod length ws))"
  shows "type_step (tw_state el ws wt i k False) =
           Inr (tw_state (take (Suc k) (ws ! (i mod length ws))) ws wt i (Suc k) False, 100)"
  using assms
  by (auto simp: type_step_def tw_state_def array_get_def js_rem_def Let_def substring_0 min_def
           nat_int_succ simp del: of_nat_Suc)

lemma step_typing_done:
  assumes "ws \<noteq> []" and "k \<le> length (ws ! (i mod length ws))"
    and "length (ws ! (i mod length ws)) \<le> Suc k"
  shows "type_step (tw_state el ws wt i k False) =
           Inr (tw_state (ws ! (i mod length ws)) ws wt i (length (ws ! (i mod length ws))) True, wt)"
  using assms
  by (auto simp: type_step_def tw_state_def array_get_def js_rem_def Let_def substring_0 min_def
           nat_int_succ simp del: of_nat_Suc)

lemma step_deleting:
  assumes "ws \<noteq> []" and "k \<le> length (ws ! (i mod length ws))"
  shows "type_step (tw_state el ws wt i k True) =
           (if 1 < k
            then Inr (tw_state (take (k - 1) (ws ! (i mod length ws))) ws wt i (k - 1) True, 50)
            else Inr (tw_state [] ws wt (Suc i) 0 False, 400))"
  using assms
  by (auto simp: type_step_def tw_state_def array_get_def js_rem_def Let_def substring_0 min_def
           nat_int_pred)



lemma tw_state_sel:
  "element_textContent (tw_state el ws wt i k del) = el"
  "words (tw_state el ws wt i k del) = ws"
  "waitTime (tw_state el ws wt i k del) = wt"
  "wordIndex (tw_state el ws wt i k del) = i"
  "tw_text (tw_state el ws wt i k del) = take k (ws ! (i mod length ws))"
  "isDeleting (tw_state el ws wt i k del) = del"
  by (simp_all add: tw_state_def)

lemma type_loop_one:
  "type_step tw = Inr (tw1, d) \<Longrightarrow> type_loop n tw1 = Inr (tw2, tr) \<Longrightarrow>
   type_loop (Suc n) tw = Inr (tw2, (element_textContent tw1, d) # tr)"
  by simp

lemma typing_phase:
  assumes ws: "ws \<noteq> []" and w: "w = ws ! (i mod length ws)" and M: "M = max 1 (length w)"
  shows "k < M \<Longrightarrow>
         type_loop (M - k) (tw_state el ws wt i k False) =
           Inr (tw_state w ws wt i (length w) True,
                map (\<lambda>j. (take j w, if j < M then 100 else wt)) [Suc k ..< Suc M])"
proof (induction "M - k" arbitrary: k el)
  case 0
  then show ?case by simp
next
  case (Suc d)
  have n: "M - k = Suc (M - Suc k)" using Suc.prems by simp
  show ?case
  proof (cases "Suc k < M")
    case True
    have d: "d = M - Suc k" using Suc.hyps(2) by simp
    have IH: "type_loop (M - Suc k) (tw_state (take (Suc k) w) ws wt i (Suc k) False) =
           Inr (tw_state w ws wt i (length w) True,
                map (\<lambda>j. (take j w, if j < M then 100 else wt)) [Suc (Suc k) ..< Suc M])"
      using Suc.hyps(1)[OF d True] .
    have "Suc k < length w" using True M by arith
    then have st: "type_step (tw_state el ws wt i k False) =
                Inr (tw_state (take (Suc k) w) ws wt i (Suc k) False, 100)"
      unfolding w by (rule step_typing_more[OF ws])
    have u: "[Suc k ..< Suc M] = Suc k # [Suc (Suc k) ..< Suc M]"
      using True by (simp add: upt_conv_Cons)
    show ?thesis
      unfolding n u using type_loop_one[OF st IH] True
      by (simp add: tw_state_sel del: upt_Suc type_loop.simps)
  next
    case False
    with Suc.prems have k: "Suc k = M" by simp
    have "k \<le> length w" and "length w \<le> Suc k" using k M by arith+
    then have st: "type_step (tw_state el ws wt i k False) =
                Inr (tw_state w ws wt i (length w) True, wt)"
      unfolding w by (rule step_typing_done[OF ws])
    have l0: "type_loop 0 (tw_state w ws wt i (length w) True) =
                Inr (tw_state w ws wt i (length w) True, [])"
      by simp
    have u: "[Suc k ..< Suc M] = [M]"
      using k by (simp add: upt_conv_Cons del: upt_Suc)
    have z: "M - Suc k = 0" using k by simp
    have "length w \<le> M" using M by simp
    then have t: "take M w = w" by simp
    show ?thesis
      unfolding n u z using type_loop_one[OF st l0]
      by (simp add: tw_state_sel t del: type_loop.simps)
  qed
qed

lemma deleting_phase:
  assumes ws: "ws \<noteq> []" and w: "w = ws ! (i mod length ws)"
  shows "k \<le> length w \<Longrightarrow>
         type_loop (max 1 k) (tw_state el ws wt i k True) =
           Inr (tw_state [] ws wt (Suc i) 0 False,
                map (\<lambda>j. (take j w, if 0 < j then 50 else 400)) (rev [0 ..< max 1 k]))"
proof (induction k arbitrary: el)
  case 0
  have st: "type_step (tw_state el ws wt i 0 True) = Inr (tw_state [] ws wt (Suc i) 0 False, 400)"
    using step_deleting[OF ws, of 0 i el wt] by simp
  have l0: "type_loop 0 (tw_state [] ws wt (Suc i) 0 False) =
              Inr (tw_state [] ws wt (Suc i) 0 False, [])"
    by simp
  show ?case
    using type_loop_one[OF st l0] by (simp add: tw_state_sel del: type_loop.simps)
next
  case (Suc k)
  have kl: "Suc k \<le> length (ws ! (i mod length ws))"
    using Suc.prems w by simp
  have l0: "type_loop 0 (tw_state [] ws wt (Suc i) 0 False) =
              Inr (tw_state [] ws wt (Suc i) 0 False, [])"
    by simp
  show ?case
  proof (cases "k = 0")
    case True
    have st: "type_step (tw_state el ws wt i (Suc k) True) =
                Inr (tw_state [] ws wt (Suc i) 0 False, 400)"
      using step_deleting[OF ws kl, of el wt] True by simp
    show ?thesis
      using type_loop_one[OF st l0] True by (simp add: tw_state_sel del: type_loop.simps)
  next
    case False
    then have m: "max 1 (Suc k) = Suc (max 1 k)" and mk: "max 1 k = k" by simp_all
    have st: "type_step (tw_state el ws wt i (Suc k) True) =
                Inr (tw_state (take k w) ws wt i k True, 50)"
      using step_deleting[OF ws kl, of el wt] False w by simp
    have IH: "type_loop (max 1 k) (tw_state (take k w) ws wt i k True) =
           Inr (tw_state [] ws wt (Suc i) 0 False,
                map (\<lambda>j. (take j w, if 0 < j then 50 else 400)) (rev [0 ..< max 1 k]))"
      using Suc.prems by (intro Suc.IH) simp
    show ?thesis
      unfolding m using type_loop_one[OF st IH] False
      by (simp add: tw_state_sel mk del: type_loop.simps)
  qed
qed

lemma upt_from_one_max: "[Suc 0 ..< max 1 (length w)] = [Suc 0 ..< length w]"
  by (cases "length w") simp_all

lemma typing_trace_alt:
  assumes M: "M = max 1 (length w)"
  shows "map (\<lambda>j. (take j w, if j < M then 100 else wt)) [Suc 0 ..< Suc M] = typing_trace w wt"
proof -
  have M1: "Suc 0 \<le> M" and lw: "length w \<le> M" using M by simp_all
  have u: "[Suc 0 ..< Suc M] = [Suc 0 ..< M] @ [M]"
    using M1 by (rule upt_Suc_append)
  have r: "[Suc 0 ..< M] = [Suc 0 ..< length w]"
    unfolding M by (rule upt_from_one_max)
  have t: "take M w = w" using lw by simp
  have "map (\<lambda>j. (take j w, if j < M then 100 else wt)) [Suc 0 ..< Suc M]
          = map (\<lambda>j. (take j w, if j < M then 100 else wt)) [Suc 0 ..< M] @ [(w, wt)]"
    unfolding u by (simp add: t)
  also have "map (\<lambda>j. (take j w, if j < M then 100 else wt)) [Suc 0 ..< M]
          = map (\<lambda>j. (take j w, 100)) [Suc 0 ..< M]"
    by (rule map_cong) simp_all
  also have "map (\<lambda>j. (take j w, 100)) [Suc 0 ..< M] @ [(w, wt)] = typing_trace w wt"
    unfolding r by (simp add: typing_trace_def)
  finally show ?thesis .
qed

lemma deleting_trace_alt:
  "map (\<lambda>j. (take j w, if 0 < j then 50 else 400)) (rev [0 ..< max 1 (length w)])
     = deleting_trace w"
proof -
  define M where "M = max 1 (length w)"
  have M1: "0 < M" using M_def by simp
  have u: "[0 ..< M] = 0 # [Suc 0 ..< M]"
    using M1 by (rule upt_conv_Cons)
  have r: "[Suc 0 ..< M] = [Suc 0 ..< length w]"
    unfolding M_def by (rule upt_from_one_max)
  have "map (\<lambda>j. (take j w, if 0 < j then 50 else 400)) (rev [0 ..< M])
          = map (\<lambda>j. (take j w, if 0 < j then 50 else 400)) (rev [Suc 0 ..< M]) @ [([], 400)]"
    unfolding u by simp
  also have "map (\<lambda>j. (take j w, if 0 < j then 50 else 400)) (rev [Suc 0 ..< M])
          = map (\<lambda>j. (take j w, 50)) (rev [Suc 0 ..< M])"
    by (rule map_cong) auto
  also have "map (\<lambda>j. (take j w, 50)) (rev [Suc 0 ..< M]) @ [([], 400)] = deleting_trace w"
    unfolding r by (simp add: deleting_trace_def)
  finally show ?thesis
    by (simp only: M_def)
qed

lemma typing_trace_length: "length (typing_trace w wt) = max 1 (length w)"
  by (cases "length w") (simp_all add: typing_trace_def)

lemma deleting_trace_length: "length (deleting_trace w) = max 1 (length w)"
  by (cases "length w") (simp_all add: deleting_trace_def)

lemma word_cycle:
  assumes ws: "ws \<noteq> []"
  shows "type_loop (length (cycle_trace ws wt i)) (tw_state el ws wt i 0 False) =
           Inr (tw_state [] ws wt (Suc i) 0 False, cycle_trace ws wt i)"
proof -
  define w where "w = ws ! (i mod length ws)"
  define M where "M = max 1 (length w)"
  have len: "length (cycle_trace ws wt i) = M + M"
    unfolding cycle_trace_def length_append typing_trace_length deleting_trace_length
    by (simp only: M_def w_def)
  have "type_loop (M - 0) (tw_state el ws wt i 0 False) =
             Inr (tw_state w ws wt i (length w) True,
                  map (\<lambda>j. (take j w, if j < M then 100 else wt)) [Suc 0 ..< Suc M])"
    by (rule typing_phase[OF ws w_def M_def]) (simp add: M_def)
  then have a: "type_loop M (tw_state el ws wt i 0 False) =
             Inr (tw_state w ws wt i (length w) True, typing_trace w wt)"
    by (simp only: typing_trace_alt[OF M_def] diff_zero)
  have "type_loop (max 1 (length w)) (tw_state w ws wt i (length w) True) =
             Inr (tw_state [] ws wt (Suc i) 0 False,
                  map (\<lambda>j. (take j w, if 0 < j then 50 else 400)) (rev [0 ..< max 1 (length w)]))"
    by (rule deleting_phase[OF ws w_def]) simp
  then have b: "type_loop M (tw_state w ws wt i (length w) True) =
             Inr (tw_state [] ws wt (Suc i) 0 False, deleting_trace w)"
    by (simp only: deleting_trace_alt M_def)
  have "type_loop (M + M) (tw_state el ws wt i 0 False) =
          Inr (tw_state [] ws wt (Suc i) 0 False, typing_trace w wt @ deleting_trace w)"
    by (rule type_loop_append[OF a b])
  then have "type_loop (M + M) (tw_state el ws wt i 0 False) =
          Inr (tw_state [] ws wt (Suc i) 0 False, cycle_trace ws wt i)"
    by (simp only: cycle_trace_def w_def)
  then show ?thesis
    unfolding len .
qed

lemma cycles_run:
  assumes ws: "ws \<noteq> []"
  shows "type_loop (length (cycles_trace ws wt m)) (TypeWriter el ws wt) =
           Inr (tw_state (if m = 0 then el else []) ws wt m 0 False, cycles_trace ws wt m)"
proof (induction m)
  case 0
  show ?case by (simp add: cycles_trace_def TypeWriter_def tw_state_def)
next
  case (Suc m)
  have c: "cycles_trace ws wt (Suc m) = cycles_trace ws wt m @ cycle_trace ws wt m"
    by (simp add: cycles_trace_def)
  have "type_loop (length (cycles_trace ws wt m) + length (cycle_trace ws wt m)) (TypeWriter el ws wt) =
          Inr (tw_state [] ws wt (Suc m) 0 False, cycles_trace ws wt m @ cycle_trace ws wt m)"
    by (rule type_loop_append[OF Suc.IH word_cycle[OF ws]])
  then show ?case
    by (simp only: c length_append) simp
qed

lemma type_loop_total:
  "words tw \<noteq> [] \<Longrightarrow>
   \<exists>tw' tr. type_loop n tw = Inr (tw', tr) \<and> length tr = n \<and> words tw' = words tw
      \<and> (0 < n \<longrightarrow> element_textContent tw' = tw_text tw'
                    \<and> prefix (tw_text tw') (currentWord_of tw'))"
proof (induction n arbitrary: tw)
  case 0
  show ?case by simp
next
  case (Suc n)
  from type_step_nonempty[OF Suc.prems] obtain tw1 d where
    st: "type_step tw = Inr (tw1, d)" and w1: "words tw1 = words tw"
    and e1: "element_textContent tw1 = tw_text tw1"
    and p1: "prefix (tw_text tw1) (currentWord_of tw1)"
    by blast
  have "words tw1 \<noteq> []" using w1 Suc.prems by simp
  from Suc.IH[OF this] obtain tw' tr where
    lp: "type_loop n tw1 = Inr (tw', tr)" and len: "length tr = n" and w': "words tw' = words tw1"
    and inv: "0 < n \<longrightarrow> element_textContent tw' = tw_text tw'
                    \<and> prefix (tw_text tw') (currentWord_of tw')"
    by blast
  have fin: "element_textContent tw' = tw_text tw' \<and> prefix (tw_text tw') (currentWord_of tw')"
  proof (cases "n = 0")
    case True
    with lp have "tw' = tw1" by simp
    with e1 p1 show ?thesis by simp
  next
    case False
    with inv show ?thesis by simp
  qed
  have "type_loop (Suc n) tw = Inr (tw', (element_textContent tw1, d) # tr)"
    using type_loop_one[OF st lp] .
  with len w' w1 fin show ?case by simp
qed


text \<open>
  C2. For every non-empty word list: after every call of \<open>type()\<close> the text on the page
  is the text of the typewriter and a prefix of the current word
  \<open>words[wordIndex % words.length]\<close>; one call leaves \<open>wordIndex\<close> as it is or adds one
  to it, and the text it writes is a prefix of the word it worked on; after the cycles of
  the first \<open>m\<close> words the index is \<open>m\<close> with the text empty again, so the words are
  taken in the order of the list; and the successor of the last position is the first.
\<close>

theorem typing_text_is_prefix_words_in_order:
  assumes "ws \<noteq> []"
  shows "(\<forall>n. \<exists>tw tr. type_loop (Suc n) (TypeWriter el ws wt) = Inr (tw, tr)
            \<and> element_textContent tw = tw_text tw
            \<and> prefix (element_textContent tw) (ws ! (wordIndex tw mod length ws)))
       \<and> (\<forall>tw tw1 d. words tw = ws \<and> type_step tw = Inr (tw1, d) \<longrightarrow>
             (wordIndex tw1 = wordIndex tw \<or> wordIndex tw1 = Suc (wordIndex tw))
             \<and> prefix (element_textContent tw1) (ws ! (wordIndex tw mod length ws)))
       \<and> (\<forall>m. \<exists>tw tr. type_loop (length (cycles_trace ws wt m)) (TypeWriter el ws wt) = Inr (tw, tr)
            \<and> wordIndex tw = m \<and> tw_text tw = [] \<and> \<not> isDeleting tw
            \<and> currentWord_of tw = ws ! (m mod length ws))
       \<and> (\<forall>i. Suc i mod length ws
              = (if i mod length ws = length ws - 1 then 0 else Suc (i mod length ws)))"
proof -
  have w0: "words (TypeWriter el ws wt) \<noteq> []"
    using assms by (simp add: TypeWriter_def)
  have a: "\<forall>n. \<exists>tw tr. type_loop (Suc n) (TypeWriter el ws wt) = Inr (tw, tr)
            \<and> element_textContent tw = tw_text tw
            \<and> prefix (element_textContent tw) (ws ! (wordIndex tw mod length ws))"
  proof
    fix n
    from type_loop_total[OF w0, of "Suc n"] obtain tw tr where
      lp: "type_loop (Suc n) (TypeWriter el ws wt) = Inr (tw, tr)"
      and w: "words tw = words (TypeWriter el ws wt)"
      and e: "element_textContent tw = tw_text tw"
      and p: "prefix (tw_text tw) (currentWord_of tw)"
      by auto
    have "words tw = ws" using w by (simp add: TypeWriter_def)
    then have "currentWord_of tw = ws ! (wordIndex tw mod length ws)"
      by (simp add: currentWord_of_def)
    with lp e p show "\<exists>tw tr. type_loop (Suc n) (TypeWriter el ws wt) = Inr (tw, tr)
            \<and> element_textContent tw = tw_text tw
            \<and> prefix (element_textContent tw) (ws ! (wordIndex tw mod length ws))"
      by auto
  qed
  have b: "\<forall>tw tw1 d. words tw = ws \<and> type_step tw = Inr (tw1, d) \<longrightarrow>
             (wordIndex tw1 = wordIndex tw \<or> wordIndex tw1 = Suc (wordIndex tw))
             \<and> prefix (element_textContent tw1) (ws ! (wordIndex tw mod length ws))"
  proof (intro allI impI)
    fix tw tw1 d
    assume h: "words tw = ws \<and> type_step tw = Inr (tw1, d)"
    then have "words tw \<noteq> []" using assms by simp
    from type_step_nonempty[OF this] h
    show "(wordIndex tw1 = wordIndex tw \<or> wordIndex tw1 = Suc (wordIndex tw))
             \<and> prefix (element_textContent tw1) (ws ! (wordIndex tw mod length ws))"
      by (auto simp: currentWord_of_def)
  qed
  have c: "\<forall>m. \<exists>tw tr. type_loop (length (cycles_trace ws wt m)) (TypeWriter el ws wt) = Inr (tw, tr)
            \<and> wordIndex tw = m \<and> tw_text tw = [] \<and> \<not> isDeleting tw
            \<and> currentWord_of tw = ws ! (m mod length ws)"
  proof
    fix m
    show "\<exists>tw tr. type_loop (length (cycles_trace ws wt m)) (TypeWriter el ws wt) = Inr (tw, tr)
            \<and> wordIndex tw = m \<and> tw_text tw = [] \<and> \<not> isDeleting tw
            \<and> currentWord_of tw = ws ! (m mod length ws)"
      using cycles_run[OF assms, of wt m el]
      by (simp add: tw_state_sel currentWord_of_def)
  qed
  have d: "\<forall>i. Suc i mod length ws
              = (if i mod length ws = length ws - 1 then 0 else Suc (i mod length ws))"
    using assms by (auto simp: mod_Suc)
  show ?thesis
    using a b c d by blast
qed

theorem typing_text_is_prefix_words_in_order_witness:
  "[''ab'', ''c''] \<noteq> []
   \<and> (\<exists>tw tr. type_loop (Suc 2) (TypeWriter ''x'' [''ab'', ''c''] 2000) = Inr (tw, tr)
         \<and> element_textContent tw = tw_text tw
         \<and> prefix (element_textContent tw) ([''ab'', ''c''] ! (wordIndex tw mod length [''ab'', ''c''])))
   \<and> (\<exists>tw tr. type_loop (length (cycles_trace [''ab'', ''c''] 2000 3))
                  (TypeWriter ''x'' [''ab'', ''c''] 2000) = Inr (tw, tr)
         \<and> wordIndex tw = 3 \<and> tw_text tw = [])"
proof -
  have ne: "[''ab'', ''c''] \<noteq> []" by simp
  from typing_text_is_prefix_words_in_order[OF ne, of "''x''" 2000]
  show ?thesis by blast
qed

text \<open>
  C5. For every non-empty word list the typing effect, started as the script starts it
  (pause 2000ms), runs the cycle of each word in turn: the calls that type the word, one
  more character each and 100ms after each, the call that completes it with the pause of
  2000ms, the calls that delete it, one character fewer each and 50ms after each, and the
  call that empties the text with 400ms before the next word. Every call returns a delay,
  that is, schedules the next call, so any number of calls takes place.
\<close>

theorem typing_four_phase_cycle_forever:
  assumes "ws \<noteq> []"
  shows "(\<forall>m. \<exists>tw. type_loop (length (cycles_trace ws 2000 m)) (TypeWriter el ws 2000)
                    = Inr (tw, cycles_trace ws 2000 m)
            \<and> wordIndex tw = m \<and> tw_text tw = [] \<and> \<not> isDeleting tw \<and> words tw = ws)
       \<and> (\<forall>m. cycles_trace ws 2000 (Suc m)
            = cycles_trace ws 2000 m
              @ typing_trace (ws ! (m mod length ws)) 2000 @ deleting_trace (ws ! (m mod length ws)))
       \<and> (\<forall>w. typing_trace w 2000 = map (\<lambda>k. (take k w, 100)) [1 ..< length w] @ [(w, 2000)]
            \<and> deleting_trace w = map (\<lambda>k. (take k w, 50)) (rev [1 ..< length w]) @ [([], 400)])
       \<and> (\<forall>n. \<exists>tw tr. type_loop n (TypeWriter el ws 2000) = Inr (tw, tr) \<and> length tr = n)
       \<and> (\<forall>tw. words tw = ws \<longrightarrow> (\<exists>tw1 d. type_step tw = Inr (tw1, d)))"
proof -
  have w0: "words (TypeWriter el ws 2000) \<noteq> []"
    using assms by (simp add: TypeWriter_def)
  have a: "\<forall>m. \<exists>tw. type_loop (length (cycles_trace ws 2000 m)) (TypeWriter el ws 2000)
                    = Inr (tw, cycles_trace ws 2000 m)
            \<and> wordIndex tw = m \<and> tw_text tw = [] \<and> \<not> isDeleting tw \<and> words tw = ws"
  proof
    fix m
    show "\<exists>tw. type_loop (length (cycles_trace ws 2000 m)) (TypeWriter el ws 2000)
                    = Inr (tw, cycles_trace ws 2000 m)
            \<and> wordIndex tw = m \<and> tw_text tw = [] \<and> \<not> isDeleting tw \<and> words tw = ws"
      using cycles_run[OF assms, of 2000 m el] by (simp add: tw_state_sel)
  qed
  have b: "\<forall>m. cycles_trace ws 2000 (Suc m)
            = cycles_trace ws 2000 m
              @ typing_trace (ws ! (m mod length ws)) 2000 @ deleting_trace (ws ! (m mod length ws))"
    by (simp add: cycles_trace_def cycle_trace_def)
  have c: "\<forall>w. typing_trace w 2000 = map (\<lambda>k. (take k w, 100)) [1 ..< length w] @ [(w, 2000)]
            \<and> deleting_trace w = map (\<lambda>k. (take k w, 50)) (rev [1 ..< length w]) @ [([], 400)]"
    by (simp add: typing_trace_def deleting_trace_def)
  have d: "\<forall>n. \<exists>tw tr. type_loop n (TypeWriter el ws 2000) = Inr (tw, tr) \<and> length tr = n"
  proof
    fix n
    from type_loop_total[OF w0, of n]
    show "\<exists>tw tr. type_loop n (TypeWriter el ws 2000) = Inr (tw, tr) \<and> length tr = n"
      by blast
  qed
  have e: "\<forall>tw. words tw = ws \<longrightarrow> (\<exists>tw1 d. type_step tw = Inr (tw1, d))"
  proof (intro allI impI)
    fix tw :: typewriter assume "words tw = ws"
    then have "words tw \<noteq> []" using assms by simp
    from type_step_nonempty[OF this] show "\<exists>tw1 d. type_step tw = Inr (tw1, d)"
      by blast
  qed
  show ?thesis
    using a b c d e by blast
qed

theorem typing_four_phase_cycle_forever_witness:
  "[''ab'', ''c''] \<noteq> []
   \<and> (\<exists>tw. type_loop (length (cycles_trace [''ab'', ''c''] 2000 1)) (TypeWriter ''x'' [''ab'', ''c''] 2000)
              = Inr (tw, cycles_trace [''ab'', ''c''] 2000 1)
         \<and> wordIndex tw = 1)
   \<and> cycles_trace [''ab'', ''c''] 2000 1
       = [(''a'', 100), (''ab'', 2000), (''a'', 50), ([], 400)]
   \<and> (\<exists>tw tr. type_loop 1000 (TypeWriter ''x'' [''ab'', ''c''] 2000) = Inr (tw, tr)
         \<and> length tr = 1000)"
proof -
  have ne: "[''ab'', ''c''] \<noteq> []" by simp
  have tr: "cycles_trace [''ab'', ''c''] 2000 1 = [(''a'', 100), (''ab'', 2000), (''a'', 50), ([], 400)]"
    by (simp add: cycles_trace_def cycle_trace_def typing_trace_def deleting_trace_def)
  from typing_four_phase_cycle_forever[OF ne, of "''x''"] tr ne
  show ?thesis by blast
qed

text \<open>
  C9. A call of \<open>type()\<close> gives a next state exactly when the word list is not empty. On
  an empty list the first call, made by the constructor, throws: \<open>wordIndex % 0\<close> is not
  a number, no word is selected, and \<open>substring\<close> has no receiver.
\<close>

theorem type_succeeds_iff_words_nonempty:
  "((\<exists>tw1 d. type_step tw = Inr (tw1, d)) \<longleftrightarrow> words tw \<noteq> [])
   \<and> js_rem (wordIndex (TypeWriter el [] wt)) (length (words (TypeWriter el [] wt))) = None
   \<and> array_get (words (TypeWriter el [] wt)) None = None
   \<and> type_step (TypeWriter el [] wt) = Inl TypeError
   \<and> type_loop (Suc n) (TypeWriter el [] wt) = Inl TypeError"
proof -
  have a: "(\<exists>tw1 d. type_step tw = Inr (tw1, d)) \<longleftrightarrow> words tw \<noteq> []"
  proof
    assume "\<exists>tw1 d. type_step tw = Inr (tw1, d)"
    then show "words tw \<noteq> []"
      using type_step_empty[of tw] by auto
  next
    assume "words tw \<noteq> []"
    from type_step_nonempty[OF this] show "\<exists>tw1 d. type_step tw = Inr (tw1, d)"
      by blast
  qed
  have e: "type_step (TypeWriter el [] wt) = Inl TypeError"
    by (rule type_step_empty) (simp add: TypeWriter_def)
  then have l: "type_loop (Suc n) (TypeWriter el [] wt) = Inl TypeError"
    by simp
  have r: "js_rem (wordIndex (TypeWriter el [] wt)) (length (words (TypeWriter el [] wt))) = None"
    by (simp add: js_rem_def TypeWriter_def)
  have g: "array_get (words (TypeWriter el [] wt)) None = None"
    by (simp add: array_get_def)
  show ?thesis
    using a e l r g by blast
qed

theorem type_succeeds_iff_words_nonempty_witness:
  "(\<exists>tw1 d. type_step (TypeWriter ''x'' [''hi''] 2000) = Inr (tw1, d))
   \<and> type_step (TypeWriter ''x'' [] 2000) = Inl TypeError"
proof -
  have "words (TypeWriter ''x'' [''hi''] 2000) \<noteq> []"
    by (simp add: TypeWriter_def)
  with type_succeeds_iff_words_nonempty[of "TypeWriter ''x'' [''hi''] 2000" "''x''" 2000 0]
    type_succeeds_iff_words_nonempty[of "TypeWriter ''x'' [] 2000" "''x''" 2000 0]
  show ?thesis by blast
qed


subsection \<open>The navbar on scroll\<close>

lemma addNavScrollClass_Some:
  "addNavScrollClass y (Some cl) =
     Inr (if 50 < y then classList_add ''scrolled'' cl else classList_remove ''scrolled'' cl)"
  by (simp add: addNavScrollClass_def)

lemma classList_contains_add:
  "classList_contains c (classList_add d cl) \<longleftrightarrow> c = d \<or> classList_contains c cl"
  by (auto simp: classList_contains_def classList_add_def)

lemma classList_contains_remove:
  "classList_contains c (classList_remove d cl) \<longleftrightarrow> c \<noteq> d \<and> classList_contains c cl"
  by (auto simp: classList_contains_def classList_remove_def)

text \<open>
  C6. With the navbar on the page, after \<open>addNavScrollClass\<close> has run the navbar lacks
  the class \<open>scrolled\<close> for every scroll offset of at most 50 pixels and has it for every
  offset above 50 pixels, whatever its classes were before; its other classes stay.
\<close>

theorem navbar_scrolled_iff_offset_above_50:
  "\<exists>cl'. addNavScrollClass y (Some cl) = Inr cl'
      \<and> (y \<le> 50 \<longrightarrow> \<not> classList_contains ''scrolled'' cl')
      \<and> (50 < y \<longrightarrow> classList_contains ''scrolled'' cl')
      \<and> (\<forall>c. c \<noteq> ''scrolled'' \<longrightarrow> classList_contains c cl' = classList_contains c cl)"
proof (cases "50 < y")
  case True
  then show ?thesis
    unfolding addNavScrollClass_Some by (simp add: classList_contains_add)
next
  case False
  then show ?thesis
    unfolding addNavScrollClass_Some by (simp add: classList_contains_remove)
qed

theorem navbar_scrolled_iff_offset_above_50_witness:
  "(\<exists>cl'. addNavScrollClass 50 (Some {''navbar'', ''scrolled''}) = Inr cl'
       \<and> \<not> classList_contains ''scrolled'' cl')
   \<and> (\<exists>cl'. addNavScrollClass (101 / 2) (Some {''navbar''}) = Inr cl'
       \<and> classList_contains ''scrolled'' cl')"
proof -
  have a: "(50::rat) \<le> 50" and b: "(50::rat) < 101 / 2"
    by simp_all
  from navbar_scrolled_iff_offset_above_50[of 50 "{''navbar'', ''scrolled''}"] a
  have 1: "\<exists>cl'. addNavScrollClass 50 (Some {''navbar'', ''scrolled''}) = Inr cl'
       \<and> \<not> classList_contains ''scrolled'' cl'"
    by blast
  from navbar_scrolled_iff_offset_above_50[of "101 / 2" "{''navbar''}"] b
  have 2: "\<exists>cl'. addNavScrollClass (101 / 2) (Some {''navbar''}) = Inr cl'
       \<and> classList_contains ''scrolled'' cl'"
    by blast
  from 1 2 show ?thesis by blast
qed


subsection \<open>The project filter\<close>

lemma filter_click_buttons:
  assumes "i < length (filterButtons fs)"
  shows "length (filterButtons (filter_click i fs)) = length (filterButtons fs)"
    and "j < length (filterButtons fs) \<Longrightarrow>
         btn_active (filterButtons (filter_click i fs) ! j) \<longleftrightarrow> j = i"
    and "j < length (filterButtons fs) \<Longrightarrow>
         data_filter (filterButtons (filter_click i fs) ! j) = data_filter (filterButtons fs ! j)"
  using assms
  by (auto simp: filter_click_def Let_def btn_active_def classList_contains_def
        classList_add_def classList_remove_def nth_list_update)

lemma filter_click_cards:
  assumes "i < length (filterButtons fs)"
  shows "projectCards (filter_click i fs)
           = map (filter_card (data_filter (filterButtons fs ! i))) (projectCards fs)"
  using assms by (simp add: filter_click_def Let_def)

lemma filter_card_visible:
  "card_visible (filter_card sel c) \<longleftrightarrow> sel = Some ''all'' \<or> Some (data_category c) = sel"
  by (auto simp: filter_card_def card_visible_def Let_def classList_toggle_def
        classList_contains_def classList_add_def classList_remove_def)

lemma filter_card_category: "data_category (filter_card sel c) = data_category c"
  by (simp add: filter_card_def Let_def)

text \<open>
  C4. After a click on a filter control, that control is the only active one; the cards
  are the same cards with the same categories; if the control's filter is \<open>all\<close> every
  card is visible, and for any other filter the visible cards are exactly those whose
  category is that filter.
\<close>

theorem filter_click_unique_active_and_visible_cards:
  assumes "i < length (filterButtons fs)"
  shows "length (filterButtons (filter_click i fs)) = length (filterButtons fs)
       \<and> (\<forall>j < length (filterButtons fs).
             btn_active (filterButtons (filter_click i fs) ! j) \<longleftrightarrow> j = i)
       \<and> length (projectCards (filter_click i fs)) = length (projectCards fs)
       \<and> (\<forall>k < length (projectCards fs).
             data_category (projectCards (filter_click i fs) ! k) = data_category (projectCards fs ! k))
       \<and> (data_filter (filterButtons fs ! i) = Some ''all'' \<longrightarrow>
             (\<forall>k < length (projectCards fs). card_visible (projectCards (filter_click i fs) ! k)))
       \<and> (data_filter (filterButtons fs ! i) \<noteq> Some ''all'' \<longrightarrow>
             (\<forall>k < length (projectCards fs).
                card_visible (projectCards (filter_click i fs) ! k)
                \<longleftrightarrow> Some (data_category (projectCards fs ! k)) = data_filter (filterButtons fs ! i)))"
proof -
  note cards = filter_click_cards[OF assms]
  have a: "length (filterButtons (filter_click i fs)) = length (filterButtons fs)"
    by (rule filter_click_buttons(1)[OF assms])
  have b: "\<forall>j < length (filterButtons fs).
             btn_active (filterButtons (filter_click i fs) ! j) \<longleftrightarrow> j = i"
    using filter_click_buttons(2)[OF assms] by blast
  have c: "length (projectCards (filter_click i fs)) = length (projectCards fs)"
    by (simp add: cards)
  have d: "\<forall>k < length (projectCards fs).
             data_category (projectCards (filter_click i fs) ! k) = data_category (projectCards fs ! k)"
    by (simp add: cards filter_card_category)
  have e: "data_filter (filterButtons fs ! i) = Some ''all'' \<longrightarrow>
             (\<forall>k < length (projectCards fs). card_visible (projectCards (filter_click i fs) ! k))"
    by (simp add: cards filter_card_visible)
  have f: "data_filter (filterButtons fs ! i) \<noteq> Some ''all'' \<longrightarrow>
             (\<forall>k < length (projectCards fs).
                card_visible (projectCards (filter_click i fs) ! k)
                \<longleftrightarrow> Some (data_category (projectCards fs ! k)) = data_filter (filterButtons fs ! i))"
    by (simp add: cards filter_card_visible)
  show ?thesis
    using a b c d e f by blast
qed


theorem filter_click_unique_active_and_visible_cards_witness:
  "1 < length (filterButtons demo_filterSection)
   \<and> btn_active (filterButtons (filter_click 1 demo_filterSection) ! 1)
   \<and> \<not> btn_active (filterButtons (filter_click 1 demo_filterSection) ! 0)
   \<and> card_visible (projectCards (filter_click 1 demo_filterSection) ! 0)
   \<and> \<not> card_visible (projectCards (filter_click 1 demo_filterSection) ! 1)"
proof -
  have i: "1 < length (filterButtons demo_filterSection)"
    by (simp add: demo_filterSection_def)
  have lb: "length (filterButtons demo_filterSection) = 2"
    and lc: "length (projectCards demo_filterSection) = 2"
    and f: "data_filter (filterButtons demo_filterSection ! 1) = Some ''web''"
    and c0: "data_category (projectCards demo_filterSection ! 0) = ''web''"
    and c1: "data_category (projectCards demo_filterSection ! 1) = ''mobile''"
    by (simp_all add: demo_filterSection_def)
  from filter_click_unique_active_and_visible_cards[OF i]
  have b: "\<forall>j < length (filterButtons demo_filterSection).
             btn_active (filterButtons (filter_click 1 demo_filterSection) ! j) \<longleftrightarrow> j = 1"
    and v: "data_filter (filterButtons demo_filterSection ! 1) \<noteq> Some ''all'' \<longrightarrow>
             (\<forall>k < length (projectCards demo_filterSection).
                card_visible (projectCards (filter_click 1 demo_filterSection) ! k)
                \<longleftrightarrow> Some (data_category (projectCards demo_filterSection ! k))
                      = data_filter (filterButtons demo_filterSection ! 1))"
    by blast+
  from b lb have b1: "btn_active (filterButtons (filter_click 1 demo_filterSection) ! 1)"
    and b0: "\<not> btn_active (filterButtons (filter_click 1 demo_filterSection) ! 0)"
    by simp_all
  from v f have v': "\<forall>k < 2. card_visible (projectCards (filter_click 1 demo_filterSection) ! k)
                \<longleftrightarrow> data_category (projectCards demo_filterSection ! k) = ''web''"
    by (simp add: lc)
  from v' c0 have v0: "card_visible (projectCards (filter_click 1 demo_filterSection) ! 0)"
    by simp
  from v' c1 have v1: "\<not> card_visible (projectCards (filter_click 1 demo_filterSection) ! 1)"
    by simp
  from i b1 b0 v0 v1 show ?thesis by blast
qed


subsection \<open>Scroll reveal\<close>

lemma reveal_entry_revealed:
  "revealed el s \<Longrightarrow> revealed el (reveal_entry e s)"
  by (simp add: reveal_entry_def revealed_def classList_contains_def classList_add_def)

lemma reveal_entry_unobserved:
  "el \<notin> observed s \<Longrightarrow> el \<notin> observed (reveal_entry e s)"
  by (simp add: reveal_entry_def)

lemma reveal_entry_intersecting:
  "isIntersecting e \<Longrightarrow>
   revealed (entry_target e) (reveal_entry e s) \<and> entry_target e \<notin> observed (reveal_entry e s)"
  by (simp add: reveal_entry_def revealed_def classList_contains_def classList_add_def)

lemma reveal_entry_observed_subset:
  "observed (reveal_entry e s) \<subseteq> observed s"
  by (auto simp: reveal_entry_def)

lemma revealCallback_revealed:
  "revealed el s \<Longrightarrow> revealed el (revealCallback es s)"
  unfolding revealCallback_def
  by (induction es arbitrary: s) (simp_all add: reveal_entry_revealed)

lemma revealCallback_unobserved:
  "el \<notin> observed s \<Longrightarrow> el \<notin> observed (revealCallback es s)"
  unfolding revealCallback_def
  by (induction es arbitrary: s) (simp_all add: reveal_entry_unobserved)

lemma revealCallback_intersecting:
  "e \<in> set es \<Longrightarrow> isIntersecting e \<Longrightarrow>
   revealed (entry_target e) (revealCallback es s)
   \<and> entry_target e \<notin> observed (revealCallback es s)"
proof (induction es arbitrary: s)
  case Nil
  then show ?case by simp
next
  case (Cons x xs)
  show ?case
  proof (cases "e = x")
    case True
    have "revealed (entry_target e) (reveal_entry x s)"
      and "entry_target e \<notin> observed (reveal_entry x s)"
      using reveal_entry_intersecting[OF Cons.prems(2), of s] True by simp_all
    then have "revealed (entry_target e) (revealCallback xs (reveal_entry x s))"
      and "entry_target e \<notin> observed (revealCallback xs (reveal_entry x s))"
      by (simp_all add: revealCallback_revealed revealCallback_unobserved)
    then show ?thesis
      by (simp add: revealCallback_def)
  next
    case False
    with Cons.prems have "e \<in> set xs" by simp
    from Cons.IH[OF this Cons.prems(2), of "reveal_entry x s"] show ?thesis
      by (simp add: revealCallback_def)
  qed
qed

lemma revealCallback_untouched:
  "\<forall>e \<in> set es. isIntersecting e \<longrightarrow> entry_target e \<noteq> el \<Longrightarrow>
   classes (revealCallback es s) el = classes s el"
  unfolding revealCallback_def
  by (induction es arbitrary: s) (auto simp: reveal_entry_def)

lemma reveal_run_revealed:
  "revealed el s \<Longrightarrow> s' \<in> set (reveal_run batches s) \<Longrightarrow> revealed el s'"
proof (induction batches arbitrary: s)
  case Nil
  then show ?case by simp
next
  case (Cons es rest)
  have r: "revealed el (revealCallback es s)"
    using Cons.prems(1) by (rule revealCallback_revealed)
  from Cons.prems(2) have "s' = revealCallback es s \<or> s' \<in> set (reveal_run rest (revealCallback es s))"
    by simp
  then show ?case
    using r Cons.IH[OF r] by blast
qed

lemma reveal_run_unobserved:
  "el \<notin> observed s \<Longrightarrow> s' \<in> set (reveal_run batches s) \<Longrightarrow> el \<notin> observed s'"
proof (induction batches arbitrary: s)
  case Nil
  then show ?case by simp
next
  case (Cons es rest)
  have r: "el \<notin> observed (revealCallback es s)"
    using Cons.prems(1) by (rule revealCallback_unobserved)
  from Cons.prems(2) have "s' = revealCallback es s \<or> s' \<in> set (reveal_run rest (revealCallback es s))"
    by simp
  then show ?case
    using r Cons.IH[OF r] by blast
qed

lemma transitions_revealed:
  "revealed el s \<Longrightarrow> transitions el s (reveal_run batches s) = 0"
  by (induction batches arbitrary: s) (simp_all add: revealCallback_revealed)

lemma transitions_le_1: "transitions el s (reveal_run batches s) \<le> 1"
proof (induction batches arbitrary: s)
  case Nil
  show ?case by simp
next
  case (Cons es rest)
  show ?case
  proof (cases "revealed el (revealCallback es s)")
    case True
    then show ?thesis by (simp add: transitions_revealed)
  next
    case False
    then show ?thesis using Cons.IH[of "revealCallback es s"] by simp
  qed
qed

text \<open>
  C8. For every element and every sequence of calls of the observer's callback, whatever
  entries the browser reports: the element goes from not revealed to revealed at most
  once; an entry that is intersecting leaves its target revealed and no longer observed;
  once revealed, the element is revealed in every later state; once not observed, it is
  never observed again; and a call with no intersecting entry for the element leaves its
  classes as they are.
\<close>

theorem reveal_once_and_irreversible:
  "transitions el s (reveal_run batches s) \<le> 1
   \<and> (\<forall>e es. e \<in> set es \<and> isIntersecting e \<longrightarrow>
         revealed (entry_target e) (revealCallback es s)
         \<and> entry_target e \<notin> observed (revealCallback es s))
   \<and> (revealed el s \<longrightarrow> (\<forall>s' \<in> set (reveal_run batches s). revealed el s'))
   \<and> (el \<notin> observed s \<longrightarrow> (\<forall>s' \<in> set (reveal_run batches s). el \<notin> observed s'))
   \<and> (\<forall>es. (\<forall>e \<in> set es. isIntersecting e \<longrightarrow> entry_target e \<noteq> el) \<longrightarrow>
          classes (revealCallback es s) el = classes s el)"
  using transitions_le_1[of el s batches] revealCallback_intersecting[of _ _ s]
    reveal_run_revealed[of el s _ batches] reveal_run_unobserved[of el s _ batches]
    revealCallback_untouched[of _ el s]
  by blast


theorem reveal_once_and_irreversible_witness:
  "transitions 0 (reveal_init [0, 1] (\<lambda>_. {''reveal''}))
     (reveal_run [[\<lparr>entry_target = 0, isIntersecting = True\<rparr>],
                  [\<lparr>entry_target = 0, isIntersecting = False\<rparr>],
                  [\<lparr>entry_target = 0, isIntersecting = True\<rparr>]]
        (reveal_init [0, 1] (\<lambda>_. {''reveal''}))) \<le> 1
   \<and> revealed 0 (revealCallback [\<lparr>entry_target = 0, isIntersecting = True\<rparr>]
                   (reveal_init [0, 1] (\<lambda>_. {''reveal''})))
   \<and> 0 \<notin> observed (revealCallback [\<lparr>entry_target = 0, isIntersecting = True\<rparr>]
                       (reveal_init [0, 1] (\<lambda>_. {''reveal''})))"
proof -
  let ?e = "\<lparr>entry_target = 0, isIntersecting = True\<rparr>"
  have m: "?e \<in> set [?e] \<and> isIntersecting ?e" by simp
  have t: "entry_target ?e = 0" by simp
  from reveal_once_and_irreversible[of 0 "reveal_init [0, 1] (\<lambda>_. {''reveal''})"
      "[[?e], [\<lparr>entry_target = 0, isIntersecting = False\<rparr>], [?e]]"]
  have a: "transitions 0 (reveal_init [0, 1] (\<lambda>_. {''reveal''}))
     (reveal_run [[?e], [\<lparr>entry_target = 0, isIntersecting = False\<rparr>], [?e]]
        (reveal_init [0, 1] (\<lambda>_. {''reveal''}))) \<le> 1"
    and b: "\<forall>e es. e \<in> set es \<and> isIntersecting e \<longrightarrow>
         revealed (entry_target e) (revealCallback es (reveal_init [0, 1] (\<lambda>_. {''reveal''})))
         \<and> entry_target e \<notin> observed (revealCallback es (reveal_init [0, 1] (\<lambda>_. {''reveal''})))"
    by blast+
  from b m have "revealed (entry_target ?e) (revealCallback [?e] (reveal_init [0, 1] (\<lambda>_. {''reveal''})))
         \<and> entry_target ?e \<notin> observed (revealCallback [?e] (reveal_init [0, 1] (\<lambda>_. {''reveal''})))"
    by blast
  with a show ?thesis
    unfolding t by blast
qed


subsection \<open>The contact form\<close>

lemma form_reset_values:
  "map currentValue (form_fields (form_reset f)) = map defaultValue (form_fields f)"
  "map defaultValue (form_fields (form_reset f)) = map defaultValue (form_fields f)"
  "submitBtn (form_reset f) = submitBtn f"
  by (simp_all add: form_reset_def comp_def)

text \<open>
  C7, as amended. For every form with its submit control, whatever its fields hold: the
  handler prevents the default action, gives the control the label \<open>Sent!\<close> with the
  gradient as background and disables it, and sets one timeout of 2500ms; at any time
  before 2500ms the form is in that state with its fields untouched; from 2500ms on the
  control has the label it had before the submission, its inline background is the empty
  string (line 326 does not put back the background the control had), it is enabled, and
  the form has been reset: every field holds its default value, the one the markup gave
  it (line 328 calls \<open>reset()\<close>, which does not empty the fields).
\<close>

theorem submit_disables_then_restores_label_and_resets_after_2500:
  assumes "submitBtn f = Some b"
  shows "\<exists>s. submit_handler f = Inr s
       \<and> defaultPrevented s
       \<and> timeout_delay s = 2500
       \<and> (\<forall>t < 2500.
             submitBtn (form_after t s)
               = Some (b\<lparr>innerHTML := sent_label,
                         style_background := ''linear-gradient(135deg, #10b981, #06b6d4)'',
                         disabled := True\<rparr>)
             \<and> form_fields (form_after t s) = form_fields f)
       \<and> (\<forall>t \<ge> 2500.
             submitBtn (form_after t s)
               = Some (b\<lparr>innerHTML := innerHTML b, style_background := [], disabled := False\<rparr>)
             \<and> map currentValue (form_fields (form_after t s)) = map defaultValue (form_fields f)
             \<and> map defaultValue (form_fields (form_after t s)) = map defaultValue (form_fields f))"
proof -
  let ?b1 = "b\<lparr>innerHTML := sent_label,
                style_background := ''linear-gradient(135deg, #10b981, #06b6d4)'',
                disabled := True\<rparr>"
  let ?s = "\<lparr>form = f\<lparr>submitBtn := Some ?b1\<rparr>, defaultPrevented = True,
             timeout_delay = 2500, timeout_callback = restore (innerHTML b)\<rparr>"
  have h: "submit_handler f = Inr ?s"
    using assms by (simp add: submit_handler_def Let_def)
  have before: "\<forall>t < 2500. submitBtn (form_after t ?s) = Some ?b1
                  \<and> form_fields (form_after t ?s) = form_fields f"
    by (simp add: form_after_def)
  have after: "form_after t ?s = restore (innerHTML b) (f\<lparr>submitBtn := Some ?b1\<rparr>)"
    if "2500 \<le> t" for t
    using that by (simp add: form_after_def)
  have r1: "submitBtn (restore (innerHTML b) (f\<lparr>submitBtn := Some ?b1\<rparr>))
              = Some (b\<lparr>innerHTML := innerHTML b, style_background := [], disabled := False\<rparr>)"
    by (simp add: restore_def form_reset_values)
  have r2: "map currentValue (form_fields (restore (innerHTML b) (f\<lparr>submitBtn := Some ?b1\<rparr>)))
              = map defaultValue (form_fields f)"
    and r3: "map defaultValue (form_fields (restore (innerHTML b) (f\<lparr>submitBtn := Some ?b1\<rparr>)))
              = map defaultValue (form_fields f)"
    by (simp_all add: restore_def form_reset_values)
  have later: "\<forall>t \<ge> 2500.
             submitBtn (form_after t ?s)
               = Some (b\<lparr>innerHTML := innerHTML b, style_background := [], disabled := False\<rparr>)
             \<and> map currentValue (form_fields (form_after t ?s)) = map defaultValue (form_fields f)
             \<and> map defaultValue (form_fields (form_after t ?s)) = map defaultValue (form_fields f)"
    using after r1 r2 r3 by simp
  have "defaultPrevented ?s" and "timeout_delay ?s = 2500"
    by simp_all
  with h before later show ?thesis
    by blast
qed

theorem submit_disables_then_restores_label_and_resets_after_2500_witness:
  "submitBtn styled_contactForm = Some styled_button
   \<and> (\<exists>s. submit_handler styled_contactForm = Inr s
        \<and> defaultPrevented s
        \<and> submitBtn (form_after 0 s)
            = Some (styled_button\<lparr>innerHTML := sent_label,
                      style_background := ''linear-gradient(135deg, #10b981, #06b6d4)'',
                      disabled := True\<rparr>)
        \<and> submitBtn (form_after 2499 s)
            = Some (styled_button\<lparr>innerHTML := sent_label,
                      style_background := ''linear-gradient(135deg, #10b981, #06b6d4)'',
                      disabled := True\<rparr>)
        \<and> submitBtn (form_after 2500 s)
            = Some (styled_button\<lparr>innerHTML := innerHTML styled_button, style_background := [],
                      disabled := False\<rparr>)
        \<and> map currentValue (form_fields (form_after 2500 s))
            = map defaultValue (form_fields styled_contactForm))"
proof -
  have b: "submitBtn styled_contactForm = Some styled_button"
    by (simp add: styled_contactForm_def)
  from submit_disables_then_restores_label_and_resets_after_2500[OF b] obtain s where
    h: "submit_handler styled_contactForm = Inr s" and p: "defaultPrevented s"
    and before: "\<forall>t < 2500.
             submitBtn (form_after t s)
               = Some (styled_button\<lparr>innerHTML := sent_label,
                         style_background := ''linear-gradient(135deg, #10b981, #06b6d4)'',
                         disabled := True\<rparr>)
             \<and> form_fields (form_after t s) = form_fields styled_contactForm"
    and later: "\<forall>t \<ge> 2500.
             submitBtn (form_after t s)
               = Some (styled_button\<lparr>innerHTML := innerHTML styled_button, style_background := [],
                         disabled := False\<rparr>)
             \<and> map currentValue (form_fields (form_after t s))
                 = map defaultValue (form_fields styled_contactForm)
             \<and> map defaultValue (form_fields (form_after t s))
                 = map defaultValue (form_fields styled_contactForm)"
    by blast
  have t0: "(0::nat) < 2500" and t1: "(2499::nat) < 2500" and t2: "(2500::nat) \<le> 2500"
    by simp_all
  from before t0 t1 later t2 h p b show ?thesis
    by blast
qed

text \<open>
  C7 as worded does not hold. On the form \<open>styled_contactForm\<close>, whose submit control has
  the inline background \<open>red\<close> and whose field has the default value \<open>Bob\<close>, the form
  2500ms after the submission has the control's background empty, not \<open>red\<close>, so the
  original colour is not restored, and the field holds \<open>Bob\<close>, so it is not cleared.
\<close>

theorem submit_restores_colour_and_clears_fields_counterexample:
  "submitBtn styled_contactForm = Some styled_button
   \<and> style_background styled_button = ''red''
   \<and> form_after_submit 2500 styled_contactForm
       = Inr \<lparr>submitBtn = Some \<lparr>innerHTML = ''Send'', style_background = [], disabled = False\<rparr>,
              form_fields = [\<lparr>defaultValue = ''Bob'', currentValue = ''Bob''\<rparr>]\<rparr>
   \<and> map_option style_background (submitBtn (projr (form_after_submit 2500 styled_contactForm)))
       \<noteq> Some (style_background styled_button)
   \<and> map currentValue (form_fields (projr (form_after_submit 2500 styled_contactForm))) \<noteq> [[]]"
proof -
  have r: "form_after_submit 2500 styled_contactForm
       = Inr \<lparr>submitBtn = Some \<lparr>innerHTML = ''Send'', style_background = [], disabled = False\<rparr>,
              form_fields = [\<lparr>defaultValue = ''Bob'', currentValue = ''Bob''\<rparr>]\<rparr>"
    by (simp add: form_after_submit_def submit_handler_def styled_contactForm_def
          styled_button_def form_after_def restore_def form_reset_def Let_def)
  have b: "submitBtn styled_contactForm = Some styled_button"
    by (simp add: styled_contactForm_def)
  have c: "style_background styled_button = ''red''"
    by (simp add: styled_button_def)
  show ?thesis
    unfolding r using b c by simp
qed


subsection \<open>The setup as a whole\<close>

text \<open>
  C3. The setup guards the hamburger, the menu, the typing target, the counters, the
  back-to-top button and the form, but not the navbar, and the submit handler does not
  guard the submit control. On a page that has everything but the navbar, the first call
  of \<open>addNavScrollClass\<close> throws and no feature is attached, whereas the same page with a
  navbar gets all of them; a form without a submit control makes the submit handler
  throw; and a well-formed but empty word list makes the typing setup throw after the
  features before it have been attached. So a missing element is not always skipped
  silently, and a malformed word list is not the only way the script fails.
\<close>

theorem unguarded_navbar_and_submit_control_throw:
  "DOMContentLoaded page_without_navbar = ([], Some TypeError)
   \<and> DOMContentLoaded (page_without_navbar\<lparr>navbar := Some {''navbar''}\<rparr>)
       = ([NavbarScroll, MobileDrawer, ActiveSection, ScrollReveal, TypingEffect, StatsCounter,
           BackToTop, ProjectFilter, ContactForm], None)
   \<and> submit_handler \<lparr>submitBtn = None, form_fields = []\<rparr> = Inl TypeError
   \<and> DOMContentLoaded (page_without_navbar\<lparr>navbar := Some {''navbar''},
                           typedTarget := Some (''Developer'', StringArray [])\<rparr>)
       = ([NavbarScroll, MobileDrawer, ActiveSection, ScrollReveal], Some TypeError)
   \<and> DOMContentLoaded (page_without_navbar\<lparr>navbar := Some {''navbar''},
                           typedTarget := Some (''Developer'', ParseError)\<rparr>)
       = ([NavbarScroll, MobileDrawer, ActiveSection, ScrollReveal], Some SyntaxError)"
proof -
  have t: "type_step (TypeWriter ''Developer'' [''Developer'', ''Designer''] 2000)
             = Inr (tw_state ''D'' [''Developer'', ''Designer''] 2000 0 1 False, 100)"
    using step_typing_more[of "[''Developer'', ''Designer'']" 0 0 "''Developer''" 2000]
    by (simp add: TypeWriter_def tw_state_def)
  have e: "type_step (TypeWriter ''Developer'' [] 2000) = Inl TypeError"
    by (rule type_step_empty) (simp add: TypeWriter_def)
  have 1: "DOMContentLoaded page_without_navbar = ([], Some TypeError)"
    by (simp add: DOMContentLoaded_def page_without_navbar_def addNavScrollClass_def)
  have 2: "DOMContentLoaded (page_without_navbar\<lparr>navbar := Some {''navbar''}\<rparr>)
       = ([NavbarScroll, MobileDrawer, ActiveSection, ScrollReveal, TypingEffect, StatsCounter,
           BackToTop, ProjectFilter, ContactForm], None)"
    by (simp add: DOMContentLoaded_def page_without_navbar_def addNavScrollClass_Some
          setup_typing_def JSON_parse_def t)
  have 3: "submit_handler \<lparr>submitBtn = None, form_fields = []\<rparr> = Inl TypeError"
    by (simp add: submit_handler_def)
  have 4: "DOMContentLoaded (page_without_navbar\<lparr>navbar := Some {''navbar''},
                           typedTarget := Some (''Developer'', StringArray [])\<rparr>)
       = ([NavbarScroll, MobileDrawer, ActiveSection, ScrollReveal], Some TypeError)"
    by (simp add: DOMContentLoaded_def page_without_navbar_def addNavScrollClass_Some
          setup_typing_def JSON_parse_def e)
  have 5: "DOMContentLoaded (page_without_navbar\<lparr>navbar := Some {''navbar''},
                           typedTarget := Some (''Developer'', ParseError)\<rparr>)
       = ([NavbarScroll, MobileDrawer, ActiveSection, ScrollReveal], Some SyntaxError)"
    by (simp add: DOMContentLoaded_def page_without_navbar_def addNavScrollClass_Some
          setup_typing_def JSON_parse_def)
  from 1 2 3 4 5 show ?thesis by blast
qed

end
